theory Spec2Isabelle
  imports Main "HOL-Library.Sublist"
begin

section \<open>The bounded concurrent URL-discovery crawler of \<open>scraper.py\<close>\<close>

text \<open>
  The development embeds \<open>VapeScraper.find_product_urls\<close> together with the methods it
  calls (\<open>is_valid_url\<close>, \<open>is_product_url\<close>, \<open>get_page\<close>, \<open>process_page\<close>) and the
  registry \<open>TARGET_SITES\<close> of \<open>config.py\<close>.

  The libraries the methods call (\<open>requests\<close>, \<open>BeautifulSoup\<close>, \<open>urllib.parse\<close>) are
  not code of the repository: they are the fields of the record \<open>env\<close>, and every
  theorem holds for every \<open>env\<close>.

  The thread pool is modelled by interleaving: a \<^emph>\<open>schedule\<close> is a list of events, each
  one atomic step of the main thread or of one worker, and every theorem about a crawl
  holds for every schedule. An event that is not enabled in the state it meets is
  skipped. What Python leaves open is data of the event: the order in which a
  \<open>set\<close> is listed by \<open>list(...)\<close> is carried by the event that lists it.
\<close>

subsection \<open>Strings\<close>

type_synonym url = string

text \<open>Python's \<open>pattern in text\<close> on strings.\<close>

fun contains :: "string \<Rightarrow> string \<Rightarrow> bool" where
  "contains p [] = (p = [])"
| "contains p (c # cs) = (prefix p (c # cs) \<or> contains p cs)"

text \<open>
  \<open>str.lower\<close>, on the ASCII letters. (A character of \<open>string\<close> is a byte; the
  terms searched for in the lowered text are ASCII.)
\<close>

definition lower_char :: "char \<Rightarrow> char" where
  "lower_char c =
     (let n = (of_char c :: nat) in if 65 \<le> n \<and> n \<le> 90 then char_of (n + 32) else c)"

definition lower :: "string \<Rightarrow> string" where
  "lower s = map lower_char s"

text \<open>\<open>xs[:n]\<close>: a negative bound counts from the end.\<close>

definition py_slice_to :: "'a list \<Rightarrow> int \<Rightarrow> 'a list" where
  "py_slice_to xs n =
     (if 0 \<le> n then take (nat n) xs else take (length xs - nat (- n)) xs)"

text \<open>\<open>list(S)\<close> of a set \<open>S\<close> lists every element once, in an order Python leaves open.\<close>

definition enumerates :: "'a list \<Rightarrow> 'a set \<Rightarrow> bool" where
  "enumerates xs S = (distinct xs \<and> set xs = S)"

subsection \<open>Configuration (\<open>config.py\<close>)\<close>

text \<open>An entry of \<open>TARGET_SITES\<close>: the keys \<open>'base_url'\<close> and \<open>'product_pattern'\<close>.\<close>

record site_info =
  site_base_url :: url
  site_product_pattern :: string

definition TARGET_SITES :: "string \<rightharpoonup> site_info" where
  "TARGET_SITES =
     [''vaperanger'' \<mapsto>
        \<lparr>site_base_url = ''https://vaperanger.com'', site_product_pattern = ''/products/''\<rparr>,
      ''vapewholesale'' \<mapsto>
        \<lparr>site_base_url = ''https://vapewholesaleusa.com'', site_product_pattern = ''/''\<rparr>]"

subsection \<open>The libraries\<close>

text \<open>
  \<^item> \<open>http_get url k\<close>: the text of the response to the \<open>k\<close>-th attempt
    (\<open>k = 0, 1, 2\<close>) of \<open>requests.get(url, ...)\<close> followed by \<open>raise_for_status()\<close>,
    \<open>None\<close> when either raises;
  \<^item> \<open>find_hrefs html\<close>: the \<open>href\<close> of every anchor found by
    \<open>BeautifulSoup(html, 'html.parser').find_all('a', href=True)\<close>, in order, \<open>None\<close>
    when the parser raises;
  \<^item> \<open>urljoin base href\<close>: \<open>urllib.parse.urljoin\<close>, \<open>None\<close> when it raises;
  \<^item> \<open>urlparse_netloc url\<close>: \<open>urlparse(url).netloc\<close>, \<open>None\<close> when \<open>urlparse\<close> raises.
\<close>

record env =
  http_get :: "url \<Rightarrow> nat \<Rightarrow> string option"
  find_hrefs :: "string \<Rightarrow> string list option"
  urljoin :: "url \<Rightarrow> string \<Rightarrow> url option"
  urlparse_netloc :: "url \<Rightarrow> string option"

datatype error = KeyError | ValueError

subsection \<open>The scraper object\<close>

text \<open>
  The attributes of \<open>VapeScraper\<close> that the crawler reads or writes. \<open>base_domain\<close> is
  \<open>None\<close> after \<open>__init__\<close>; \<open>base_url\<close> is no attribute until a crawl sets it
  (\<open>None\<close> here). The attributes \<open>headers\<close>, \<open>products\<close>, \<open>product_urls\<close> and the
  lock object are never written by the crawler; the lock's effect is that adding to
  \<open>visited_urls\<close> is one atomic step.
\<close>

record scraper =
  visited_urls :: "url set"
  base_domain :: "string option"
  base_url :: "url option"
  target_sites :: "string \<rightharpoonup> site_info"

definition VapeScraper :: scraper where
  "VapeScraper =
     \<lparr>visited_urls = {}, base_domain = None, base_url = None, target_sites = TARGET_SITES\<rparr>"

definition is_valid_url :: "env \<Rightarrow> scraper \<Rightarrow> url \<Rightarrow> bool" where
  "is_valid_url e sc u =
     (case urlparse_netloc e u of
        None \<Rightarrow> False
      | Some n \<Rightarrow> if n \<noteq> [] then Some n = base_domain sc else False)"

definition is_product_url :: "scraper \<Rightarrow> url \<Rightarrow> string \<Rightarrow> error + bool" where
  "is_product_url sc u name =
     (case target_sites sc name of
        None \<Rightarrow> Inl KeyError
      | Some info \<Rightarrow> Inr (contains (site_product_pattern info) u))"

subsection \<open>\<open>get_page\<close>\<close>

datatype io = Request url | Sleep nat | Print

definition max_retries :: nat where
  "max_retries = 3"

text \<open>
  The loop \<open>for attempt in range(max_retries)\<close> from \<open>attempt\<close> on: the trace of what
  it does (requests, sleeps in milliseconds, the error message) and what it returns.
\<close>

function get_page_from :: "env \<Rightarrow> url \<Rightarrow> nat \<Rightarrow> io list \<times> string option" where
  "get_page_from e u attempt =
     (if attempt < max_retries then
        (case http_get e u attempt of
           Some text \<Rightarrow> ([Request u], Some text)
         | None \<Rightarrow>
             if attempt = max_retries - 1 then ([Request u, Print], None)
             else (let (tr, r) = get_page_from e u (Suc attempt)
                   in (Request u # Sleep 500 # tr, r)))
      else ([], None))"
  by pat_completeness auto
termination
  by (relation "measure (\<lambda>(e, u, attempt). max_retries - attempt)") auto

definition get_page :: "env \<Rightarrow> url \<Rightarrow> io list \<times> string option" where
  "get_page e u = get_page_from e u 0"

subsection \<open>\<open>process_page\<close>, step by step\<close>

text \<open>
  A task is one call \<open>process_page(url, site_name)\<close> submitted to the pool. Between
  two of its steps the other threads may run:
  \<^item> \<open>Queued\<close>: submitted, not started;
  \<^item> \<open>Checked\<close>: the test \<open>url in self.visited_urls\<close> was false, the lock is not taken yet;
  \<^item> \<open>Marked\<close>: \<open>url\<close> was added under the lock, the page is not fetched yet;
  \<^item> \<open>Classifying hs P C\<close>: in the loop over the anchors, \<open>hs\<close> still to do,
    \<open>P = product_links\<close>, \<open>C = category_links\<close>;
  \<^item> \<open>Done P C\<close>: returned \<open>(P, C)\<close>;
  \<^item> \<open>Failed\<close>: an exception left \<open>process_page\<close> (it is kept by the future).
\<close>

datatype task =
  Queued | Checked | Marked
  | Classifying "string list" "url set" "url set"
  | Done "url set" "url set"
  | Failed

fun finished :: "task \<Rightarrow> bool" where
  "finished (Done P C) = True"
| "finished Failed = True"
| "finished _ = False"

fun started :: "task \<Rightarrow> bool" where
  "started Queued = False"
| "started w = True"

definition listing_terms :: "string list" where
  "listing_terms = [''product'', ''collection'', ''category'', ''shop'']"

datatype verdict = Dropped | ProductLink | CategoryLink

text \<open>The body of the loop over the anchors, after \<open>urljoin\<close>.\<close>

definition classify_link :: "env \<Rightarrow> scraper \<Rightarrow> string \<Rightarrow> url \<Rightarrow> error + verdict" where
  "classify_link e sc name full_url =
     (if \<not> is_valid_url e sc full_url then Inr Dropped
      else
        (case is_product_url sc full_url name of
           Inl err \<Rightarrow> Inl err
         | Inr True \<Rightarrow> Inr ProductLink
         | Inr False \<Rightarrow>
             if full_url \<notin> visited_urls sc then
               (if list_ex (\<lambda>term. contains term (lower full_url)) listing_terms
                then Inr CategoryLink else Inr Dropped)
             else Inr Dropped))"

text \<open>
  One step of a task on the shared object. The second component of the state is the
  list of the URLs \<open>get_page\<close> was called with, in order.
\<close>

fun process_page_step ::
  "env \<Rightarrow> string \<Rightarrow> url \<Rightarrow> scraper \<times> url list \<Rightarrow> task \<Rightarrow> (scraper \<times> url list) \<times> task" where
  "process_page_step e name u (sc, reqs) Queued =
     (if u \<in> visited_urls sc then ((sc, reqs), Done {} {}) else ((sc, reqs), Checked))"
| "process_page_step e name u (sc, reqs) Checked =
     ((sc\<lparr>visited_urls := insert u (visited_urls sc)\<rparr>, reqs), Marked)"
| "process_page_step e name u (sc, reqs) Marked =
     ((sc, reqs @ [u]),
      (case snd (get_page e u) of
         None \<Rightarrow> Done {} {}
       | Some html \<Rightarrow>
           if html = [] then Done {} {}
           else (case find_hrefs e html of
                   None \<Rightarrow> Failed
                 | Some hs \<Rightarrow> Classifying hs {} {})))"
| "process_page_step e name u (sc, reqs) (Classifying [] P C) = ((sc, reqs), Done P C)"
| "process_page_step e name u (sc, reqs) (Classifying (href # hs) P C) =
     ((sc, reqs),
      (case base_url sc of
         None \<Rightarrow> Failed
       | Some b \<Rightarrow>
           (case urljoin e b href of
              None \<Rightarrow> Failed
            | Some full_url \<Rightarrow>
                (case classify_link e sc name full_url of
                   Inl err \<Rightarrow> Failed
                 | Inr Dropped \<Rightarrow> Classifying hs P C
                 | Inr ProductLink \<Rightarrow> Classifying hs (insert full_url P) C
                 | Inr CategoryLink \<Rightarrow> Classifying hs P (insert full_url C)))))"
| "process_page_step e name u (sc, reqs) (Done P C) = ((sc, reqs), Done P C)"
| "process_page_step e name u (sc, reqs) Failed = ((sc, reqs), Failed)"

subsection \<open>\<open>find_product_urls\<close>\<close>

text \<open>
  Where the main thread is: about to test the condition of the \<open>while\<close>; inside the
  loop over \<open>as_completed\<close>; past the loops, leaving the \<open>with\<close> block (which waits for
  every submitted task); returned.
\<close>

datatype pc = AtWhile | InFor | Exiting | Returned "url list"

text \<open>
  The object, the local variables of \<open>find_product_urls\<close>, the tasks of the current
  batch (\<open>future_to_url\<close>, keyed here by the URL of the future: \<open>current_batch\<close> is a
  set, so a batch has one future per URL), the futures \<open>as_completed\<close> has not yielded
  yet, and two counters of the history: the requests made and the batches drawn.
\<close>

record crawl =
  self :: scraper
  requests :: "url list"
  site_name :: string
  max_urls :: int
  product_urls :: "url set"
  urls_to_visit :: "url set"
  current_batch :: "url set"
  future_to_url :: "url \<rightharpoonup> task"
  pending :: "url set"
  pc :: pc
  batches :: nat

definition max_workers :: nat where
  "max_workers = 20"

definition batch :: nat where
  "batch = 50"

datatype event =
  Draw "url list"
  | Run url
  | Merge url "url list"
  | Return "url list"

definition loop_cond :: "crawl \<Rightarrow> bool" where
  "loop_cond s = (urls_to_visit s \<noteq> {} \<and> int (card (product_urls s)) < max_urls s)"

text \<open>
  The head of the \<open>while\<close> when its condition holds: \<open>xs\<close> is \<open>list(urls_to_visit)\<close>.
  The batch leaves the frontier and one task per URL is submitted.
\<close>

definition draw :: "url list \<Rightarrow> crawl \<Rightarrow> crawl option" where
  "draw xs s =
     (if pc s = AtWhile \<and> loop_cond s \<and> enumerates xs (urls_to_visit s) then
        (let batch_size = min batch (card (urls_to_visit s));
             cb = set (take batch_size xs)
         in Some (s\<lparr>urls_to_visit := urls_to_visit s - cb,
                    current_batch := cb,
                    future_to_url := (\<lambda>u. if u \<in> cb then Some Queued else None),
                    pending := cb,
                    pc := InFor,
                    batches := Suc (batches s)\<rparr>))
      else None)"

text \<open>The tasks that hold a thread of the pool: started and not finished.\<close>

definition running :: "crawl \<Rightarrow> url set" where
  "running s =
     Set.filter
       (\<lambda>u. case future_to_url s u of None \<Rightarrow> False | Some w \<Rightarrow> started w \<and> \<not> finished w)
       (current_batch s)"

text \<open>
  One step of the task of \<open>u\<close>. A queued task starts only when one of the
  \<open>max_workers\<close> threads is free.
\<close>

definition run_task :: "env \<Rightarrow> url \<Rightarrow> crawl \<Rightarrow> crawl option" where
  "run_task e u s =
     (case future_to_url s u of
        None \<Rightarrow> None
      | Some w \<Rightarrow>
          if finished w \<or> (w = Queued \<and> max_workers \<le> card (running s)) then None
          else
            (let ((sc, reqs), w') = process_page_step e (site_name s) u (self s, requests s) w
             in Some (s\<lparr>self := sc, requests := reqs,
                        future_to_url := (future_to_url s)(u \<mapsto> w')\<rparr>)))"

text \<open>
  After the loop over \<open>as_completed\<close> (left at its end or by \<open>break\<close>): the test
  \<open>if len(product_urls) >= max_urls: break\<close>.
\<close>

definition after_for :: "crawl \<Rightarrow> crawl" where
  "after_for s =
     s\<lparr>pc := (if max_urls s \<le> int (card (product_urls s)) then Exiting else AtWhile)\<rparr>"

text \<open>The end of the body of the \<open>for\<close>: on to the next future, if any.\<close>

definition next_future :: "url \<Rightarrow> crawl \<Rightarrow> crawl" where
  "next_future u s =
     (let s' = s\<lparr>pending := pending s - {u}\<rparr>
      in if pending s' = {} then after_for s' else s')"

text \<open>
  \<open>if len(product_urls) < max_urls: urls_to_visit.update(page_categories -
  self.visited_urls - urls_to_visit)\<close>
\<close>

definition enqueue :: "url set \<Rightarrow> crawl \<Rightarrow> crawl" where
  "enqueue page_categories s =
     (if int (card (product_urls s)) < max_urls s then
        s\<lparr>urls_to_visit :=
            urls_to_visit s \<union> (page_categories - visited_urls (self s) - urls_to_visit s)\<rparr>
      else s)"

text \<open>
  The body of the \<open>for\<close> for the completed future of \<open>u\<close>; \<open>ys\<close> is
  \<open>list(new_products)\<close>, taken only when the budget would be exceeded. A future that
  holds an exception raises it from \<open>result()\<close>; the \<open>except\<close> prints it.
\<close>

definition merge :: "url \<Rightarrow> url list \<Rightarrow> crawl \<Rightarrow> crawl option" where
  "merge u ys s =
     (if pc s = InFor \<and> u \<in> pending s then
        (case future_to_url s u of
           Some (Done page_products page_categories) \<Rightarrow>
             (let new_products = page_products - product_urls s in
              if int (card (product_urls s)) + int (card new_products) > max_urls s then
                (if enumerates ys new_products then
                   (let remaining = max_urls s - int (card (product_urls s));
                        s1 = s\<lparr>product_urls := product_urls s \<union> set (py_slice_to ys remaining)\<rparr>
                    in if int (card (product_urls s1)) \<ge> max_urls s1
                       then Some (after_for (s1\<lparr>pending := pending s1 - {u}\<rparr>))
                       else Some (next_future u (enqueue page_categories s1)))
                 else None)
              else
                Some (next_future u
                  (enqueue page_categories
                    (s\<lparr>product_urls := product_urls s \<union> new_products\<rparr>))))
         | Some Failed \<Rightarrow> Some (next_future u s)
         | _ \<Rightarrow> None)
      else None)"

text \<open>
  Leaving the \<open>with\<close> block waits for every task; then \<open>return list(product_urls)\<close>,
  \<open>xs\<close> being that list.
\<close>

definition return_list :: "url list \<Rightarrow> crawl \<Rightarrow> crawl option" where
  "return_list xs s =
     (if (pc s = Exiting \<or> (pc s = AtWhile \<and> \<not> loop_cond s))
         \<and> (\<forall>u \<in> current_batch s.
               case future_to_url s u of None \<Rightarrow> True | Some w \<Rightarrow> finished w)
         \<and> enumerates xs (product_urls s)
      then Some (s\<lparr>pc := Returned xs\<rparr>)
      else None)"

fun step :: "env \<Rightarrow> event \<Rightarrow> crawl \<Rightarrow> crawl option" where
  "step e (Draw xs) s = draw xs s"
| "step e (Run u) s = run_task e u s"
| "step e (Merge u ys) s = merge u ys s"
| "step e (Return xs) s = return_list xs s"

fun run :: "env \<Rightarrow> event list \<Rightarrow> crawl \<Rightarrow> crawl" where
  "run e [] s = s"
| "run e (ev # evs) s = run e evs (case step e ev s of None \<Rightarrow> s | Some s' \<Rightarrow> s')"

text \<open>
  The lines before the loop: the registry lookup, \<open>self.base_url\<close>,
  \<open>self.base_domain\<close>, then the fresh sets.
\<close>

definition start :: "env \<Rightarrow> scraper \<Rightarrow> string \<Rightarrow> int \<Rightarrow> error + crawl" where
  "start e sc name n =
     (case target_sites sc name of
        None \<Rightarrow> Inl KeyError
      | Some info \<Rightarrow>
          (case urlparse_netloc e (site_base_url info) of
             None \<Rightarrow> Inl ValueError
           | Some d \<Rightarrow>
               Inr \<lparr>self = sc\<lparr>visited_urls := {}, base_domain := Some d,
                               base_url := Some (site_base_url info)\<rparr>,
                    requests = [],
                    site_name = name,
                    max_urls = n,
                    product_urls = {},
                    urls_to_visit = {site_base_url info},
                    current_batch = {},
                    future_to_url = Map.empty,
                    pending = {},
                    pc = AtWhile,
                    batches = 0\<rparr>))"

datatype outcome = Raised error | Result "url list" | Unfinished

definition find_product_urls ::
  "env \<Rightarrow> scraper \<Rightarrow> string \<Rightarrow> int \<Rightarrow> event list \<Rightarrow> outcome" where
  "find_product_urls e sc name n sched =
     (case start e sc name n of
        Inl err \<Rightarrow> Raised err
      | Inr s \<Rightarrow>
          (case pc (run e sched s) of
             Returned xs \<Rightarrow> Result xs
           | _ \<Rightarrow> Unfinished))"

text \<open>The URLs \<open>get_page\<close> was called with during the invocation, in order.\<close>

definition requests_made ::
  "env \<Rightarrow> scraper \<Rightarrow> string \<Rightarrow> int \<Rightarrow> event list \<Rightarrow> url list" where
  "requests_made e sc name n sched =
     (case start e sc name n of
        Inl err \<Rightarrow> []
      | Inr s \<Rightarrow> requests (run e sched s))"


subsection \<open>A small site, for concrete runs\<close>

text \<open>
  The home page of \<open>vaperanger.com\<close> links to two products, two collections and a
  foreign product; collection \<open>c\<close> links to one product and to collection \<open>x\<close>,
  which never answers; collection \<open>e\<close> answers at
  the third attempt only and links to collection \<open>c\<close> and two products; every other
  URL fails.
\<close>

definition demo_env :: env where
  "demo_env =
     \<lparr>http_get = (\<lambda>u k.
          if u = ''https://vaperanger.com'' then Some ''home''
          else if u = ''https://vaperanger.com/collections/c'' then Some ''c''
          else if u = ''https://vaperanger.com/collections/e''
               then (if k < 2 then None else Some ''e'')
          else None),
       find_hrefs = (\<lambda>html.
          if html = ''home'' then
            Some [''/products/a'', ''/products/b'', ''/collections/c'', ''/collections/e'',
                  ''https://other.test/products/z'']
          else if html = ''c'' then Some [''/products/d'', ''/collections/x'']
          else if html = ''e'' then Some [''/collections/c'', ''/products/f'', ''/products/g'']
          else None),
       urljoin = (\<lambda>b h. if prefix ''https://'' h then Some h else Some (b @ h)),
       urlparse_netloc = (\<lambda>u.
          if prefix ''https://'' u then Some (takeWhile (\<lambda>c. c \<noteq> CHR ''/'') (drop 8 u))
          else Some [])\<rparr>"

definition home :: url where
  "home = ''https://vaperanger.com''"

definition coll_c :: url where
  "coll_c = ''https://vaperanger.com/collections/c''"

definition coll_e :: url where
  "coll_e = ''https://vaperanger.com/collections/e''"

definition coll_x :: url where
  "coll_x = ''https://vaperanger.com/collections/x''"

definition prod_a :: url where
  "prod_a = ''https://vaperanger.com/products/a''"

definition prod_b :: url where
  "prod_b = ''https://vaperanger.com/products/b''"

text \<open>The first round: the home page is drawn, processed to its end and merged.\<close>

definition round_home :: "url list \<Rightarrow> event list" where
  "round_home ys = Draw [home] # replicate 9 (Run home) @ [Merge home ys]"

text \<open>A second round in which both tasks run to their ends, \<open>c\<close> first.\<close>

definition round_c_then_e :: "event list" where
  "round_c_then_e =
     Draw [coll_c, coll_e] # replicate 6 (Run coll_c) @ [Merge coll_c []]
       @ replicate 7 (Run coll_e) @ [Merge coll_e []]"

text \<open>
  After these two rounds the third batch is \<open>{x}\<close>; here the task of \<open>x\<close> has added
  \<open>x\<close> to the visited set and is about to request the page.
\<close>

definition until_x_marked :: "event list" where
  "until_x_marked = round_home [] @ round_c_then_e @ [Draw [coll_x], Run coll_x, Run coll_x]"

text \<open>
  A second round in which the task of \<open>e\<close> runs to its end and is merged before
  the task of \<open>c\<close> has started.
\<close>

definition round_e_first :: "event list" where
  "round_e_first = Draw [coll_c, coll_e] # replicate 7 (Run coll_e) @ [Merge coll_e []]"

subsection \<open>Invariants\<close>

text \<open>The sets a task has collected so far.\<close>

fun task_products :: "task \<Rightarrow> url set" where
  "task_products (Classifying hs P C) = P"
| "task_products (Done P C) = P"
| "task_products w = {}"

fun task_categories :: "task \<Rightarrow> url set" where
  "task_categories (Classifying hs P C) = C"
| "task_categories (Done P C) = C"
| "task_categories w = {}"

text \<open>Every set of the crawl is finite.\<close>

definition fin_inv :: "crawl \<Rightarrow> bool" where
  "fin_inv s =
     (finite (product_urls s) \<and> finite (urls_to_visit s)
      \<and> (\<forall>u w. future_to_url s u = Some w \<longrightarrow>
             finite (task_products w) \<and> finite (task_categories w)))"

text \<open>The product URL set is within the budget.\<close>

definition budget_inv :: "crawl \<Rightarrow> bool" where
  "budget_inv s = (fin_inv s \<and> int (card (product_urls s)) \<le> max_urls s)"

text \<open>What was returned is a listing of the product URL set.\<close>

definition returned_inv :: "crawl \<Rightarrow> bool" where
  "returned_inv s = (\<forall>xs. pc s = Returned xs \<longrightarrow> enumerates xs (product_urls s))"

text \<open>The state in which a crawl of \<open>vaperanger\<close> starts on the small site.\<close>

definition demo_start :: "int \<Rightarrow> crawl" where
  "demo_start n =
     \<lparr>self = \<lparr>visited_urls = {}, base_domain = Some ''vaperanger.com'',
              base_url = Some ''https://vaperanger.com'', target_sites = TARGET_SITES\<rparr>,
      requests = [], site_name = ''vaperanger'', max_urls = n, product_urls = {},
      urls_to_visit = {''https://vaperanger.com''}, current_batch = {},
      future_to_url = Map.empty, pending = {}, pc = AtWhile, batches = 0\<rparr>"


text \<open>A link that the loop body puts into \<open>product_links\<close>.\<close>

definition link_ok :: "env \<Rightarrow> scraper \<Rightarrow> string \<Rightarrow> url \<Rightarrow> bool" where
  "link_ok e sc name u = (is_valid_url e sc u \<and> is_product_url sc u name = Inr True)"

text \<open>Every product link, merged or still held by a task, passed both tests.\<close>

definition products_inv :: "env \<Rightarrow> crawl \<Rightarrow> bool" where
  "products_inv e s =
     ((\<forall>u \<in> product_urls s. link_ok e (self s) (site_name s) u)
      \<and> (\<forall>v w. future_to_url s v = Some w \<longrightarrow>
             (\<forall>u \<in> task_products w. link_ok e (self s) (site_name s) u)))"


text \<open>
  Where the threads stand: only URLs of the current batch have a task; inside the
  loop over \<open>as_completed\<close> some future is still to be yielded, every future to be
  yielded exists and every future yielded has finished; at the head of the \<open>while\<close>
  and after the return every task has finished.
\<close>

definition live_inv :: "crawl \<Rightarrow> bool" where
  "live_inv s =
     (fin_inv s
      \<and> (\<forall>u. future_to_url s u \<noteq> None \<longrightarrow> u \<in> current_batch s)
      \<and> (pc s = InFor \<longrightarrow>
            pending s \<noteq> {} \<and> (\<forall>u \<in> pending s. future_to_url s u \<noteq> None)
          \<and> (\<forall>u w. u \<notin> pending s \<longrightarrow> future_to_url s u = Some w \<longrightarrow> finished w))
      \<and> (pc s \<noteq> InFor \<and> pc s \<noteq> Exiting \<longrightarrow>
            (\<forall>u w. future_to_url s u = Some w \<longrightarrow> finished w)))"

subsection \<open>A crawl that ends in its first round\<close>

text \<open>
  The anchors the task of \<open>u\<close> goes through: those of the page \<open>get_page\<close> returns,
  none when it returns nothing or the parser raises.
\<close>

definition page_hrefs :: "env \<Rightarrow> url \<Rightarrow> string list" where
  "page_hrefs e u =
     (case snd (get_page e u) of
        None \<Rightarrow> []
      | Some html \<Rightarrow>
          if html = [] then []
          else (case find_hrefs e html of None \<Rightarrow> [] | Some hs \<Rightarrow> hs))"

text \<open>The number of events of a schedule that were enabled when their turn came.\<close>

fun effective :: "env \<Rightarrow> event list \<Rightarrow> crawl \<Rightarrow> nat" where
  "effective e [] s = 0"
| "effective e (ev # evs) s =
     (case step e ev s of None \<Rightarrow> effective e evs s | Some s' \<Rightarrow> Suc (effective e evs s'))"

fun task_todo :: "task \<Rightarrow> string list" where
  "task_todo (Classifying hs P C) = hs"
| "task_todo w = []"

text \<open>A bound on the steps a task still makes, on a page with \<open>L\<close> anchors.\<close>

fun task_rank :: "nat \<Rightarrow> task \<Rightarrow> nat" where
  "task_rank L Queued = L + 4"
| "task_rank L Checked = L + 3"
| "task_rank L Marked = L + 2"
| "task_rank L (Classifying hs P C) = length hs + 1"
| "task_rank L (Done P C) = 0"
| "task_rank L Failed = 0"

text \<open>
  A bound on the steps a crawl still makes when the task of the base URL \<open>b\<close> is the
  only one it ever has.
\<close>

definition seed_rank :: "nat \<Rightarrow> url \<Rightarrow> crawl \<Rightarrow> nat" where
  "seed_rank L b s =
     (case pc s of
        Returned xs \<Rightarrow> 0
      | _ \<Rightarrow>
          1 + (if batches s = 0 then L + 6
               else (case future_to_url s b of None \<Rightarrow> 0 | Some w \<Rightarrow> task_rank L w)
                    + (if b \<in> pending s then 1 else 0)))"

text \<open>
  The states of such a crawl: no product, no category link; before the first batch
  the frontier is \<open>{b}\<close>, after it the frontier is empty.
\<close>

definition seed_inv :: "env \<Rightarrow> url \<Rightarrow> string \<Rightarrow> crawl \<Rightarrow> bool" where
  "seed_inv e b d s =
     (product_urls s = {} \<and> base_url (self s) = Some b \<and> base_domain (self s) = Some d
      \<and> (\<forall>u w. future_to_url s u = Some w \<longrightarrow>
             u = b \<and> task_products w = {} \<and> task_categories w = {}
           \<and> suffix (task_todo w) (page_hrefs e b))
      \<and> (batches s = 0 \<and> urls_to_visit s = {b} \<and> future_to_url s = Map.empty
          \<or> batches s = 1 \<and> urls_to_visit s = {} \<and> pending s \<subseteq> {b}
            \<and> (pc s = InFor \<longrightarrow> b \<in> pending s)))"

text \<open>The small site with a home page that links to a foreign product only.\<close>

definition bare_env :: env where
  "bare_env = demo_env\<lparr>find_hrefs := (\<lambda>html. Some [''https://other.test/products/z''])\<rparr>"

definition bare_crawl :: "event list" where
  "bare_crawl = Draw [home] # replicate 5 (Run home) @ [Merge home [], Return []]"

section \<open>Strings and \<open>get_page\<close>\<close>

lemma contains_sublist: "contains p u = sublist p u"
  by (induction u) (simp_all add: sublist_Cons_right)

lemma contains_lower:
  "contains t (lower u) = (\<exists>ps w ss. u = ps @ w @ ss \<and> lower w = t)"
proof -
  have "sublist t (map lower_char u) = (\<exists>ps w ss. u = ps @ w @ ss \<and> map lower_char w = t)"
    unfolding sublist_def
    by (metis (no_types, opaque_lifting) map_eq_append_conv)
  then show ?thesis
    by (simp add: contains_sublist lower_def)
qed



section \<open>The classifier\<close>

text \<open>
  C5. With the site registered and a non-empty base domain \<open>d\<close> (the host of a
  configured base URL), the loop body classifies a resolved link \<open>u\<close> thus: it is
  dropped unless its network location is exactly \<open>d\<close>; an in-domain link is a product
  link iff the product pattern is a substring of it; an in-domain link that is no
  product link is a category link iff it is not in the visited set and one of the
  four terms occurs in it up to the case of letters; everything else is dropped. The
  task puts a product link into \<open>product_links\<close>, a category link into
  \<open>category_links\<close>, and nothing else anywhere.
\<close>

theorem classifier_partition:
  assumes "target_sites sc name = Some info" and "base_domain sc = Some d" and "d \<noteq> []"
  shows "classify_link e sc name u =
           Inr (if urlparse_netloc e u \<noteq> Some d then Dropped
                else if sublist (site_product_pattern info) u then ProductLink
                else if u \<notin> visited_urls sc
                        \<and> (\<exists>t \<in> {''product'', ''collection'', ''category'', ''shop''}.
                              \<exists>ps w ss. u = ps @ w @ ss \<and> lower w = t)
                     then CategoryLink
                else Dropped)
         \<and> (base_url sc = Some b \<and> urljoin e b href = Some u \<longrightarrow>
              process_page_step e name v (sc, reqs) (Classifying (href # hs) P C) =
                ((sc, reqs),
                 (case classify_link e sc name u of
                    Inr ProductLink \<Rightarrow> Classifying hs (insert u P) C
                  | Inr CategoryLink \<Rightarrow> Classifying hs P (insert u C)
                  | _ \<Rightarrow> Classifying hs P C)))"
proof -
  define T where
    "T = (\<exists>t \<in> {''product'', ''collection'', ''category'', ''shop''}.
            \<exists>ps w ss. u = ps @ w @ ss \<and> lower w = t)"
  have terms: "list_ex (\<lambda>t. contains t (lower u)) listing_terms = T"
    unfolding T_def by (simp only: list_ex_iff contains_lower listing_terms_def) simp
  have valid: "is_valid_url e sc u = (urlparse_netloc e u = Some d)"
    using assms(2,3) by (auto simp: is_valid_url_def split: option.splits)
  have prod: "is_product_url sc u name = Inr (sublist (site_product_pattern info) u)"
    using assms(1) by (simp add: is_product_url_def contains_sublist)
  have cl: "classify_link e sc name u =
           Inr (if urlparse_netloc e u \<noteq> Some d then Dropped
                else if sublist (site_product_pattern info) u then ProductLink
                else if u \<notin> visited_urls sc \<and> T then CategoryLink
                else Dropped)"
    unfolding classify_link_def valid prod terms by simp
  have st: "base_url sc = Some b \<and> urljoin e b href = Some u \<longrightarrow>
              process_page_step e name v (sc, reqs) (Classifying (href # hs) P C) =
                ((sc, reqs),
                 (case classify_link e sc name u of
                    Inr ProductLink \<Rightarrow> Classifying hs (insert u P) C
                  | Inr CategoryLink \<Rightarrow> Classifying hs P (insert u C)
                  | _ \<Rightarrow> Classifying hs P C))"
  proof -
    obtain vd where vd: "classify_link e sc name u = Inr vd"
      using cl by simp
    show ?thesis
      by (cases vd) (simp_all add: vd)
  qed
  from cl st show ?thesis unfolding T_def by (rule conjI)
qed

theorem classifier_partition_witness:
  "classify_link demo_env
     \<lparr>visited_urls = {home}, base_domain = Some ''vaperanger.com'', base_url = Some home,
      target_sites = TARGET_SITES\<rparr> ''vaperanger'' ''https://vaperanger.com/Shop/x''
   = Inr CategoryLink"
proof -
  have a: "target_sites \<lparr>visited_urls = {home}, base_domain = Some ''vaperanger.com'',
             base_url = Some home, target_sites = TARGET_SITES\<rparr> ''vaperanger''
           = Some \<lparr>site_base_url = ''https://vaperanger.com'',
                   site_product_pattern = ''/products/''\<rparr>"
    by (simp add: TARGET_SITES_def)
  have b: "base_domain \<lparr>visited_urls = {home}, base_domain = Some ''vaperanger.com'',
             base_url = Some home, target_sites = TARGET_SITES\<rparr> = Some ''vaperanger.com''"
    by simp
  have c: "''vaperanger.com'' \<noteq> []"
    by simp
  have d: "urlparse_netloc demo_env ''https://vaperanger.com/Shop/x'' = Some ''vaperanger.com''"
    by code_simp
  have f: "\<not> sublist ''/products/'' ''https://vaperanger.com/Shop/x''"
    by code_simp
  have g: "''https://vaperanger.com/Shop/x'' \<notin> {home}"
    by (simp add: home_def)
  have h: "''https://vaperanger.com/Shop/x'' = ''https://vaperanger.com/'' @ ''Shop'' @ ''/x''
           \<and> lower ''Shop'' = ''shop''"
    by code_simp
  have i: "\<exists>t \<in> {''product'', ''collection'', ''category'', ''shop''}.
             \<exists>ps w ss. ''https://vaperanger.com/Shop/x'' = ps @ w @ ss \<and> lower w = t"
    using h by blast
  show ?thesis
    using conjunct1 [OF classifier_partition [OF a b c]] d f g i
    by simp
qed

section \<open>Steps, case by case\<close>

lemma after_for_fields [simp]:
  "self (after_for s) = self s" "requests (after_for s) = requests s"
  "site_name (after_for s) = site_name s" "max_urls (after_for s) = max_urls s"
  "product_urls (after_for s) = product_urls s" "urls_to_visit (after_for s) = urls_to_visit s"
  "current_batch (after_for s) = current_batch s" "future_to_url (after_for s) = future_to_url s"
  "pending (after_for s) = pending s" "batches (after_for s) = batches s"
  by (simp_all add: after_for_def)

lemma next_future_fields [simp]:
  "self (next_future u s) = self s" "requests (next_future u s) = requests s"
  "site_name (next_future u s) = site_name s" "max_urls (next_future u s) = max_urls s"
  "product_urls (next_future u s) = product_urls s"
  "urls_to_visit (next_future u s) = urls_to_visit s"
  "current_batch (next_future u s) = current_batch s"
  "future_to_url (next_future u s) = future_to_url s"
  "pending (next_future u s) = pending s - {u}" "batches (next_future u s) = batches s"
  by (simp_all add: next_future_def Let_def)

lemma enqueue_fields [simp]:
  "self (enqueue cs s) = self s" "requests (enqueue cs s) = requests s"
  "site_name (enqueue cs s) = site_name s" "max_urls (enqueue cs s) = max_urls s"
  "product_urls (enqueue cs s) = product_urls s"
  "current_batch (enqueue cs s) = current_batch s"
  "future_to_url (enqueue cs s) = future_to_url s"
  "pending (enqueue cs s) = pending s" "batches (enqueue cs s) = batches s"
  "pc (enqueue cs s) = pc s"
  by (simp_all add: enqueue_def)

lemma enqueue_frontier:
  "urls_to_visit (enqueue cs s) =
     (if int (card (product_urls s)) < max_urls s
      then urls_to_visit s \<union> (cs - visited_urls (self s) - urls_to_visit s)
      else urls_to_visit s)"
  by (simp add: enqueue_def)

text \<open>The cases of a merge.\<close>

lemma merge_SomeE:
  assumes "merge u ys s = Some s'"
  obtains
    (failed) "pc s = InFor" "u \<in> pending s" "future_to_url s u = Some Failed"
      "s' = next_future u s"
  | (fits) P C where "pc s = InFor" "u \<in> pending s" "future_to_url s u = Some (Done P C)"
      "\<not> int (card (product_urls s)) + int (card (P - product_urls s)) > max_urls s"
      "s' = next_future u (enqueue C (s\<lparr>product_urls := product_urls s \<union> (P - product_urls s)\<rparr>))"
  | (break) P C where "pc s = InFor" "u \<in> pending s" "future_to_url s u = Some (Done P C)"
      "int (card (product_urls s)) + int (card (P - product_urls s)) > max_urls s"
      "enumerates ys (P - product_urls s)"
      "max_urls s \<le> int (card (product_urls s \<union>
          set (py_slice_to ys (max_urls s - int (card (product_urls s))))))"
      "s' = after_for (s\<lparr>product_urls := product_urls s \<union>
               set (py_slice_to ys (max_urls s - int (card (product_urls s)))),
             pending := pending s - {u}\<rparr>)"
  | (short) P C where "pc s = InFor" "u \<in> pending s" "future_to_url s u = Some (Done P C)"
      "int (card (product_urls s)) + int (card (P - product_urls s)) > max_urls s"
      "enumerates ys (P - product_urls s)"
      "\<not> max_urls s \<le> int (card (product_urls s \<union>
          set (py_slice_to ys (max_urls s - int (card (product_urls s))))))"
      "s' = next_future u (enqueue C (s\<lparr>product_urls := product_urls s \<union>
               set (py_slice_to ys (max_urls s - int (card (product_urls s))))\<rparr>))"
proof -
  from assms have en: "pc s = InFor" "u \<in> pending s"
    by (simp_all add: merge_def split: if_splits)
  from assms en obtain w where w: "future_to_url s u = Some w"
    by (cases "future_to_url s u") (simp_all add: merge_def)
  show thesis
  proof (cases w)
    case Failed
    with assms en w have "s' = next_future u s"
      by (simp add: merge_def)
    with en w Failed show thesis
      by (intro failed) simp_all
  next
    case (Done P C)
    show thesis
    proof (cases "int (card (product_urls s)) + int (card (P - product_urls s)) > max_urls s")
      case False
      with assms en w Done
      have "s' = next_future u (enqueue C (s\<lparr>product_urls := product_urls s \<union> (P - product_urls s)\<rparr>))"
        by (simp add: merge_def Let_def)
      with en w Done False show thesis
        by (intro fits) simp_all
    next
      case True
      with assms en w Done have enum: "enumerates ys (P - product_urls s)"
        by (simp add: merge_def Let_def split: if_splits)
      show thesis
      proof (cases "max_urls s \<le> int (card (product_urls s \<union>
          set (py_slice_to ys (max_urls s - int (card (product_urls s))))))")
        case br: True
        with assms en w Done True enum
        have "s' = after_for (s\<lparr>product_urls := product_urls s \<union>
               set (py_slice_to ys (max_urls s - int (card (product_urls s)))),
             pending := pending s - {u}\<rparr>)"
          by (simp add: merge_def Let_def)
        with en w Done True enum br show thesis
          by (intro break) simp_all
      next
        case nb: False
        with assms en w Done True enum
        have "s' = next_future u (enqueue C (s\<lparr>product_urls := product_urls s \<union>
               set (py_slice_to ys (max_urls s - int (card (product_urls s))))\<rparr>))"
          by (simp add: merge_def Let_def)
        with en w Done True enum nb show thesis
          by (intro short) simp_all
      qed
    qed
  qed (use assms en w in \<open>simp_all add: merge_def\<close>)
qed

lemma merge_frame:
  assumes "merge u ys s = Some s'"
  shows "self s' = self s" "requests s' = requests s" "site_name s' = site_name s"
    "max_urls s' = max_urls s" "current_batch s' = current_batch s"
    "future_to_url s' = future_to_url s" "batches s' = batches s"
    "pc s = InFor" "u \<in> pending s" "pending s' = pending s - {u}"
  using assms by (cases rule: merge_SomeE; simp)+

lemma draw_SomeE:
  assumes "draw xs s = Some s'"
  obtains "pc s = AtWhile" "loop_cond s" "enumerates xs (urls_to_visit s)"
    "s' = s\<lparr>urls_to_visit := urls_to_visit s - set (take (min batch (card (urls_to_visit s))) xs),
            current_batch := set (take (min batch (card (urls_to_visit s))) xs),
            future_to_url := (\<lambda>u. if u \<in> set (take (min batch (card (urls_to_visit s))) xs)
                                   then Some Queued else None),
            pending := set (take (min batch (card (urls_to_visit s))) xs),
            pc := InFor,
            batches := Suc (batches s)\<rparr>"
  using assms by (simp add: draw_def Let_def split: if_splits)

lemma return_list_SomeE:
  assumes "return_list xs s = Some s'"
  obtains "pc s = Exiting \<or> (pc s = AtWhile \<and> \<not> loop_cond s)"
    "\<forall>u \<in> current_batch s. case future_to_url s u of None \<Rightarrow> True | Some w \<Rightarrow> finished w"
    "enumerates xs (product_urls s)" "s' = s\<lparr>pc := Returned xs\<rparr>"
  using assms by (simp add: return_list_def split: if_splits)

lemma run_task_SomeE:
  assumes "run_task e u s = Some s'"
  obtains w sc reqs w' where "future_to_url s u = Some w" "\<not> finished w"
    "w = Queued \<longrightarrow> card (running s) < max_workers"
    "process_page_step e (site_name s) u (self s, requests s) w = ((sc, reqs), w')"
    "s' = s\<lparr>self := sc, requests := reqs, future_to_url := (future_to_url s)(u \<mapsto> w')\<rparr>"
proof -
  from assms obtain w where w: "future_to_url s u = Some w"
    by (cases "future_to_url s u") (simp_all add: run_task_def)
  obtain sc reqs w' where p:
    "process_page_step e (site_name s) u (self s, requests s) w = ((sc, reqs), w')"
    by (metis surj_pair)
  from assms w p have h: "\<not> finished w" "w = Queued \<longrightarrow> card (running s) < max_workers"
    "s' = s\<lparr>self := sc, requests := reqs, future_to_url := (future_to_url s)(u \<mapsto> w')\<rparr>"
    by (auto simp: run_task_def split: if_splits)
  show thesis
    by (rule that [OF w h(1,2) p h(3)])
qed

text \<open>The cases of a step of a task that has not finished.\<close>

lemma process_page_step_cases:
  assumes "process_page_step e name u (sc, reqs) w = ((sc', reqs'), w')" and "\<not> finished w"
  obtains
    (skip) "w = Queued" "u \<in> visited_urls sc" "sc' = sc" "reqs' = reqs" "w' = Done {} {}"
  | (check) "w = Queued" "u \<notin> visited_urls sc" "sc' = sc" "reqs' = reqs" "w' = Checked"
  | (mark) "w = Checked" "sc' = sc\<lparr>visited_urls := insert u (visited_urls sc)\<rparr>"
      "reqs' = reqs" "w' = Marked"
  | (fetch) "w = Marked" "sc' = sc" "reqs' = reqs @ [u]"
      "w' = (case snd (get_page e u) of
               None \<Rightarrow> Done {} {}
             | Some html \<Rightarrow>
                 if html = [] then Done {} {}
                 else (case find_hrefs e html of
                         None \<Rightarrow> Failed
                       | Some hs \<Rightarrow> Classifying hs {} {}))"
  | (return) P C where "w = Classifying [] P C" "sc' = sc" "reqs' = reqs" "w' = Done P C"
  | (raise) h hs P C where "w = Classifying (h # hs) P C" "sc' = sc" "reqs' = reqs" "w' = Failed"
  | (link) h hs P C b full vd where "w = Classifying (h # hs) P C" "sc' = sc" "reqs' = reqs"
      "base_url sc = Some b" "urljoin e b h = Some full"
      "classify_link e sc name full = Inr vd"
      "w' = (case vd of Dropped \<Rightarrow> Classifying hs P C
             | ProductLink \<Rightarrow> Classifying hs (insert full P) C
             | CategoryLink \<Rightarrow> Classifying hs P (insert full C))"
proof (cases w)
  case Queued
  with assms show thesis
    by (cases "u \<in> visited_urls sc") (auto intro: skip check)
next
  case Checked
  with assms show thesis
    by (auto intro: mark)
next
  case Marked
  with assms show thesis
    by (auto intro: fetch)
next
  case (Classifying hs0 P C)
  show thesis
  proof (cases hs0)
    case Nil
    with assms Classifying show thesis
      by (auto intro: return)
  next
    case (Cons h hs)
    note w = Classifying [unfolded Cons]
    show thesis
    proof (cases "base_url sc")
      case None
      with assms w show thesis by (auto intro: raise)
    next
      case (Some b)
      note b = this
      show thesis
      proof (cases "urljoin e b h")
        case None
        with assms w b show thesis by (auto intro: raise)
      next
        case (Some full)
        note full = this
        show thesis
        proof (cases "classify_link e sc name full")
          case (Inl err)
          with assms w b full show thesis by (auto intro: raise)
        next
          case (Inr vd)
          with assms w b full have
            "sc' = sc" "reqs' = reqs"
            "w' = (case vd of Dropped \<Rightarrow> Classifying hs P C
             | ProductLink \<Rightarrow> Classifying hs (insert full P) C
             | CategoryLink \<Rightarrow> Classifying hs P (insert full C))"
            by (simp_all split: verdict.splits)
          with w b full Inr show thesis
            by (intro link) simp_all
        qed
      qed
    qed
  qed
next
  case (Done P C)
  with assms(2) show thesis by simp
next
  case Failed
  with assms(2) show thesis by simp
qed

lemma step_frame:
  assumes "step e ev s = Some s'"
  shows "site_name s' = site_name s" "max_urls s' = max_urls s"
    "base_domain (self s') = base_domain (self s)"
    "base_url (self s') = base_url (self s)"
    "target_sites (self s') = target_sites (self s)"
proof -
  have "site_name s' = site_name s \<and> max_urls s' = max_urls s
      \<and> base_domain (self s') = base_domain (self s)
      \<and> base_url (self s') = base_url (self s)
      \<and> target_sites (self s') = target_sites (self s)"
  proof (cases ev)
    case (Draw xs)
    with assms show ?thesis by (auto elim!: draw_SomeE)
  next
    case (Run u)
    with assms have "run_task e u s = Some s'" by simp
    then show ?thesis
    proof (cases rule: run_task_SomeE)
      case (1 w sc reqs w')
      from 1(4,2) have "base_domain sc = base_domain (self s) \<and> base_url sc = base_url (self s)
         \<and> target_sites sc = target_sites (self s)"
        by (cases rule: process_page_step_cases) simp_all
      with 1(5) show ?thesis by simp
    qed
  next
    case (Merge u ys)
    with assms show ?thesis by (simp add: merge_frame)
  next
    case (Return xs)
    with assms show ?thesis by (auto elim!: return_list_SomeE)
  qed
  then show "site_name s' = site_name s" "max_urls s' = max_urls s"
    "base_domain (self s') = base_domain (self s)"
    "base_url (self s') = base_url (self s)"
    "target_sites (self s') = target_sites (self s)"
    by simp_all
qed

lemma run_induct:
  assumes "I s" and "\<And>ev s s'. I s \<Longrightarrow> step e ev s = Some s' \<Longrightarrow> I s'"
  shows "I (run e sched s)"
  using assms(1)
proof (induction sched arbitrary: s)
  case Nil
  then show ?case by simp
next
  case (Cons ev sched)
  show ?case
  proof (cases "step e ev s")
    case None
    with Cons show ?thesis by simp
  next
    case (Some s')
    with Cons.prems assms(2) have "I s'" by blast
    with Cons.IH Some show ?thesis by simp
  qed
qed

section \<open>Finite sets and the budget\<close>

lemma process_page_step_finite:
  assumes "process_page_step e name u (sc, reqs) w = ((sc', reqs'), w')"
    and "finite (task_products w)" and "finite (task_categories w)"
  shows "finite (task_products w') \<and> finite (task_categories w')"
proof (cases "finished w")
  case True
  with assms show ?thesis
    by (cases w) auto
next
  case False
  with assms(1) show ?thesis
    using assms(2,3)
    by (cases rule: process_page_step_cases)
       (auto split: option.splits verdict.splits)
qed

lemma fin_inv_Done:
  assumes "fin_inv s" and "future_to_url s u = Some (Done P C)"
  shows "finite P" and "finite C"
proof -
  from assms have "finite (task_products (Done P C)) \<and> finite (task_categories (Done P C))"
    unfolding fin_inv_def by blast
  then show "finite P" and "finite C" by simp_all
qed

lemma fin_inv_step:
  assumes "fin_inv s" and "step e ev s = Some s'"
  shows "fin_inv s'"
proof (cases ev)
  case (Draw xs)
  with assms show ?thesis
    by (auto simp: fin_inv_def elim!: draw_SomeE split: if_splits)
next
  case (Run u)
  with assms(2) have "run_task e u s = Some s'" by simp
  then show ?thesis
  proof (cases rule: run_task_SomeE)
    case (1 w sc reqs w')
    from assms(1) 1(1) have "finite (task_products w)" "finite (task_categories w)"
      unfolding fin_inv_def by blast+
    with 1(4) have "finite (task_products w') \<and> finite (task_categories w')"
      by (rule process_page_step_finite)
    with assms(1) 1(5) show ?thesis
      by (auto simp: fin_inv_def)
  qed
next
  case (Merge u ys)
  with assms(2) have m: "merge u ys s = Some s'" by simp
  note fr = merge_frame [OF m]
  have tasks: "\<forall>v w. future_to_url s' v = Some w \<longrightarrow>
                 finite (task_products w) \<and> finite (task_categories w)"
    using assms(1) fr(6) by (simp add: fin_inv_def)
  have "finite (product_urls s') \<and> finite (urls_to_visit s')"
    using m
  proof (cases rule: merge_SomeE)
    case failed
    with assms(1) show ?thesis by (simp add: fin_inv_def)
  next
    case (fits P C)
    from assms(1) fits(3) have "finite P" "finite C" by (rule fin_inv_Done)+
    with assms(1) fits(5) show ?thesis
      by (simp add: fin_inv_def enqueue_frontier)
  next
    case (break P C)
    with assms(1) show ?thesis by (simp add: fin_inv_def)
  next
    case (short P C)
    from assms(1) short(3) have "finite P" "finite C" by (rule fin_inv_Done)+
    with assms(1) short(7) show ?thesis
      by (simp add: fin_inv_def enqueue_frontier)
  qed
  with tasks show ?thesis by (simp add: fin_inv_def)
next
  case (Return xs)
  with assms show ?thesis
    by (auto simp: fin_inv_def elim!: return_list_SomeE)
qed

text \<open>Taking from a listing of new elements up to the budget.\<close>

lemma card_admit:
  assumes "finite A" and "enumerates ys N" and "N \<inter> A = {}" and "0 \<le> r"
  shows "card (A \<union> set (py_slice_to ys r)) = card A + min (nat r) (card N)"
proof -
  from assms(2) have d: "distinct ys" and n: "set ys = N"
    by (simp_all add: enumerates_def)
  have sl: "py_slice_to ys r = take (nat r) ys"
    using assms(4) by (simp add: py_slice_to_def)
  have "set (take (nat r) ys) \<inter> A = {}"
    using assms(3) n set_take_subset [of "nat r" ys] by blast
  then have "card (A \<union> set (take (nat r) ys)) = card A + card (set (take (nat r) ys))"
    using assms(1) by (simp add: card_Un_disjoint Int_commute)
  also have "card (set (take (nat r) ys)) = length (take (nat r) ys)"
    using d by (simp add: distinct_card)
  also have "\<dots> = min (nat r) (card N)"
    using d n by (simp add: distinct_card [symmetric] min.commute)
  finally show ?thesis by (simp add: sl)
qed

lemma budget_inv_step:
  assumes "budget_inv s" and "step e ev s = Some s'"
  shows "budget_inv s'"
proof -
  from assms have fin': "fin_inv s'"
    by (auto simp: budget_inv_def intro: fin_inv_step)
  from assms(1) have fin: "finite (product_urls s)"
    and le: "int (card (product_urls s)) \<le> max_urls s"
    by (simp_all add: budget_inv_def fin_inv_def)
  have "int (card (product_urls s')) \<le> max_urls s'"
  proof (cases ev)
    case (Draw xs)
    with assms(2) le show ?thesis by (auto elim!: draw_SomeE)
  next
    case (Run u)
    with assms(2) le show ?thesis by (auto elim!: run_task_SomeE)
  next
    case (Return xs)
    with assms(2) le show ?thesis by (auto elim!: return_list_SomeE)
  next
    case (Merge u ys)
    with assms(2) have m: "merge u ys s = Some s'" by simp
    then show ?thesis
    proof (cases rule: merge_SomeE)
      case failed
      with le show ?thesis by simp
    next
      case (fits P C)
      have "card (product_urls s \<union> (P - product_urls s))
              \<le> card (product_urls s) + card (P - product_urls s)"
        by (rule card_Un_le)
      with fits(4,5) show ?thesis by simp
    next
      case (break P C)
      have "card (product_urls s \<union> set (py_slice_to ys (max_urls s - int (card (product_urls s)))))
            = card (product_urls s)
              + min (nat (max_urls s - int (card (product_urls s)))) (card (P - product_urls s))"
        using fin break(5) le by (intro card_admit) auto
      with break(7) le show ?thesis by simp
    next
      case (short P C)
      have "card (product_urls s \<union> set (py_slice_to ys (max_urls s - int (card (product_urls s)))))
            = card (product_urls s)
              + min (nat (max_urls s - int (card (product_urls s)))) (card (P - product_urls s))"
        using fin short(5) le by (intro card_admit) auto
      with short(7) le show ?thesis by simp
    qed
  qed
  with fin' show ?thesis by (simp add: budget_inv_def)
qed

lemma enumerates_length: "enumerates xs S \<Longrightarrow> length xs = card S"
  by (metis distinct_card enumerates_def)

lemma pc_after_for:
  "pc (after_for s) = (if max_urls s \<le> int (card (product_urls s)) then Exiting else AtWhile)"
  by (simp add: after_for_def)

lemma pc_next_future:
  "pc (next_future u s) =
     (if pending s - {u} = {}
      then (if max_urls s \<le> int (card (product_urls s)) then Exiting else AtWhile)
      else pc s)"
  by (simp add: next_future_def Let_def after_for_def)

lemma merge_pc:
  assumes "merge u ys s = Some s'"
  shows "pc s' = InFor \<or> pc s' = AtWhile \<or> pc s' = Exiting"
  using assms
  by (cases rule: merge_SomeE) (simp_all add: pc_next_future pc_after_for)

lemma returned_inv_step:
  assumes "returned_inv s" and "step e ev s = Some s'"
  shows "returned_inv s'"
proof (cases ev)
  case (Draw xs)
  with assms show ?thesis
    by (auto simp: returned_inv_def elim!: draw_SomeE)
next
  case (Run u)
  with assms show ?thesis
    by (auto simp: returned_inv_def elim!: run_task_SomeE)
next
  case (Merge u ys)
  with assms(2) have "merge u ys s = Some s'" by simp
  from merge_pc [OF this] show ?thesis
    by (auto simp: returned_inv_def)
next
  case (Return xs)
  with assms show ?thesis
    by (auto simp: returned_inv_def elim!: return_list_SomeE)
qed

lemma start_InrE:
  assumes "start e sc name n = Inr s0"
  obtains info d where "target_sites sc name = Some info"
    "urlparse_netloc e (site_base_url info) = Some d"
    "s0 = \<lparr>self = sc\<lparr>visited_urls := {}, base_domain := Some d,
                       base_url := Some (site_base_url info)\<rparr>,
           requests = [], site_name = name, max_urls = n, product_urls = {},
           urls_to_visit = {site_base_url info}, current_batch = {},
           future_to_url = Map.empty, pending = {}, pc = AtWhile, batches = 0\<rparr>"
  using assms by (auto simp: start_def split: option.splits)

lemma start_fin_inv: "start e sc name n = Inr s0 \<Longrightarrow> fin_inv s0"
  by (erule start_InrE) (simp add: fin_inv_def)

lemma start_budget_inv: "0 \<le> n \<Longrightarrow> start e sc name n = Inr s0 \<Longrightarrow> budget_inv s0"
  by (erule start_InrE) (simp add: budget_inv_def fin_inv_def)

lemma start_returned_inv: "start e sc name n = Inr s0 \<Longrightarrow> returned_inv s0"
  by (erule start_InrE) (simp add: returned_inv_def)

lemma run_max_urls: "max_urls (run e sched s) = max_urls s"
  by (rule run_induct [where I = "\<lambda>t. max_urls t = max_urls s"]) (simp_all add: step_frame)

lemma run_fin_inv: "fin_inv s \<Longrightarrow> fin_inv (run e sched s)"
  by (rule run_induct [where I = fin_inv]) (auto intro: fin_inv_step)

lemma run_budget_inv: "budget_inv s \<Longrightarrow> budget_inv (run e sched s)"
  by (rule run_induct [where I = budget_inv]) (auto intro: budget_inv_step)

lemma run_returned_inv: "returned_inv s \<Longrightarrow> returned_inv (run e sched s)"
  by (rule run_induct [where I = returned_inv]) (auto intro: returned_inv_step)

lemma find_product_urls_ResultE:
  assumes "find_product_urls e sc name n sched = Result xs"
  obtains s0 where "start e sc name n = Inr s0" "pc (run e sched s0) = Returned xs"
  using assms
  by (auto simp: find_product_urls_def split: sum.splits pc.splits)

lemma result_length:
  assumes "0 \<le> n" and "find_product_urls e sc name n sched = Result xs"
  shows "int (length xs) \<le> n"
proof -
  from assms(2) obtain s0 where s0: "start e sc name n = Inr s0"
    and r: "pc (run e sched s0) = Returned xs"
    by (rule find_product_urls_ResultE)
  let ?s = "run e sched s0"
  from s0 have "max_urls s0 = n" by (auto elim: start_InrE)
  then have n: "max_urls ?s = n" by (simp add: run_max_urls)
  from assms(1) s0 have "budget_inv ?s"
    by (intro run_budget_inv start_budget_inv)
  then have le: "int (card (product_urls ?s)) \<le> n"
    using n by (simp add: budget_inv_def)
  from s0 have "returned_inv ?s"
    by (intro run_returned_inv start_returned_inv)
  with r have "enumerates xs (product_urls ?s)"
    by (simp add: returned_inv_def)
  then have "length xs = card (product_urls ?s)"
    by (rule enumerates_length)
  with le show ?thesis by simp
qed

lemma overflow_merge:
  assumes fin: "fin_inv s" and pc: "pc s = InFor" and u: "u \<in> pending s"
    and w: "future_to_url s u = Some (Done P C)"
    and found: "int (card (product_urls s)) = max_urls s - int m"
    and k: "m < card (P - product_urls s)"
  shows "(\<exists>ys. merge u ys s \<noteq> None)
       \<and> (\<forall>ys s'. merge u ys s = Some s' \<longrightarrow>
            product_urls s \<subseteq> product_urls s'
          \<and> product_urls s' - product_urls s \<subseteq> P
          \<and> card (product_urls s' - product_urls s) = m
          \<and> int (card (product_urls s')) = max_urls s
          \<and> pc s' = Exiting
          \<and> urls_to_visit s' = urls_to_visit s)"
proof (intro conjI allI impI)
  from fin w have finP: "finite P" by (rule fin_inv_Done)
  from fin have finA: "finite (product_urls s)" by (simp add: fin_inv_def)
  have over: "int (card (product_urls s)) + int (card (P - product_urls s)) > max_urls s"
    using found k by simp
  have r: "max_urls s - int (card (product_urls s)) = int m"
    using found by simp
  from finP obtain ys where ys: "distinct ys" "set ys = P - product_urls s"
    using finite_distinct_list [of "P - product_urls s"] by auto
  then have en: "enumerates ys (P - product_urls s)" by (simp add: enumerates_def)
  have "card (product_urls s \<union> set (py_slice_to ys (int m)))
          = card (product_urls s) + min (nat (int m)) (card (P - product_urls s))"
    using finA en by (intro card_admit) auto
  with k found have full: "max_urls s \<le> int (card (product_urls s \<union> set (py_slice_to ys (int m))))"
    by simp
  from pc u w over en full r have "merge u ys s \<noteq> None"
    by (simp add: merge_def Let_def)
  then show "\<exists>ys. merge u ys s \<noteq> None" ..
next
  fix ys s'
  assume m: "merge u ys s = Some s'"
  from fin have finA: "finite (product_urls s)" by (simp add: fin_inv_def)
  have over: "int (card (product_urls s)) + int (card (P - product_urls s)) > max_urls s"
    using found k by simp
  have r: "max_urls s - int (card (product_urls s)) = int m"
    using found by simp
  have c: "enumerates ys (P - product_urls s) \<Longrightarrow>
           card (product_urls s \<union> set (py_slice_to ys (int m))) = card (product_urls s) + m"
  proof -
    assume en: "enumerates ys (P - product_urls s)"
    have "card (product_urls s \<union> set (py_slice_to ys (int m)))
          = card (product_urls s) + min (nat (int m)) (card (P - product_urls s))"
      using finA en by (intro card_admit) auto
    with k show ?thesis by simp
  qed
  have sub: "enumerates ys (P - product_urls s) \<Longrightarrow>
             set (py_slice_to ys (int m)) \<subseteq> P - product_urls s"
    using set_take_subset [of m ys] by (auto simp: enumerates_def py_slice_to_def)
  from m have "product_urls s' = product_urls s \<union> set (py_slice_to ys (int m))
      \<and> enumerates ys (P - product_urls s) \<and> pc s' = Exiting
      \<and> urls_to_visit s' = urls_to_visit s"
  proof (cases rule: merge_SomeE)
    case failed
    with w show ?thesis by simp
  next
    case (fits P' C')
    with w over show ?thesis by simp
  next
    case (break P' C')
    with w r c found show ?thesis by (simp add: pc_after_for)
  next
    case (short P' C')
    with w r c found show ?thesis by simp
  qed
  then have p: "product_urls s' = product_urls s \<union> set (py_slice_to ys (int m))"
    and en: "enumerates ys (P - product_urls s)" and e: "pc s' = Exiting"
    and f: "urls_to_visit s' = urls_to_visit s"
    by simp_all
  have d: "product_urls s' - product_urls s = set (py_slice_to ys (int m))"
    using p sub [OF en] by auto
  show "product_urls s \<subseteq> product_urls s'" using p by auto
  show "product_urls s' - product_urls s \<subseteq> P" using d sub [OF en] by auto
  show "card (product_urls s' - product_urls s) = m"
  proof -
    from en have "distinct (take m ys)" by (simp add: enumerates_def)
    then have "card (set (take m ys)) = length (take m ys)" by (rule distinct_card)
    also have "\<dots> = m" using k enumerates_length [OF en] by simp
    finally show ?thesis unfolding d by (simp add: py_slice_to_def)
  qed
  show "int (card (product_urls s')) = max_urls s"
    using p c [OF en] found by simp
  show "pc s' = Exiting" by (rule e)
  show "urls_to_visit s' = urls_to_visit s" by (rule f)
qed

text \<open>
  C1. With \<open>max_urls \<ge> 0\<close>, the list returned has at most \<open>max_urls\<close> elements,
  whatever the site, the libraries and the schedule. And in a crawl, when the future
  merged holds \<open>k > m\<close> new product links while \<open>found = max_urls - m\<close>, the merge
  can be made, every such merge admits exactly \<open>m\<close> of the new links, the product URL
  set then has exactly \<open>max_urls\<close> elements, and the main thread leaves the loops
  without touching the frontier.
\<close>

theorem budget_respected:
  assumes "0 \<le> n"
  shows "(find_product_urls e sc name n sched = Result xs \<longrightarrow> int (length xs) \<le> n)
       \<and> (start e sc name n = Inr init \<and> s = run e sched init \<and> pc s = InFor \<and> u \<in> pending s
          \<and> future_to_url s u = Some (Done P C)
          \<and> int (card (product_urls s)) = n - int m \<and> m < card (P - product_urls s) \<longrightarrow>
            (\<exists>ys. merge u ys s \<noteq> None)
          \<and> (\<forall>ys s'. merge u ys s = Some s' \<longrightarrow>
                 product_urls s \<subseteq> product_urls s'
               \<and> product_urls s' - product_urls s \<subseteq> P
               \<and> card (product_urls s' - product_urls s) = m
               \<and> int (card (product_urls s')) = n
               \<and> pc s' = Exiting
               \<and> urls_to_visit s' = urls_to_visit s))"
proof -
  have A: "find_product_urls e sc name n sched = Result xs \<longrightarrow> int (length xs) \<le> n"
    using assms by (auto intro: result_length)
  have B: "start e sc name n = Inr init \<and> s = run e sched init \<and> pc s = InFor \<and> u \<in> pending s
          \<and> future_to_url s u = Some (Done P C)
          \<and> int (card (product_urls s)) = n - int m \<and> m < card (P - product_urls s) \<longrightarrow>
            (\<exists>ys. merge u ys s \<noteq> None)
          \<and> (\<forall>ys s'. merge u ys s = Some s' \<longrightarrow>
                 product_urls s \<subseteq> product_urls s'
               \<and> product_urls s' - product_urls s \<subseteq> P
               \<and> card (product_urls s' - product_urls s) = m
               \<and> int (card (product_urls s')) = n
               \<and> pc s' = Exiting
               \<and> urls_to_visit s' = urls_to_visit s)"
  proof (rule impI)
    assume h: "start e sc name n = Inr init \<and> s = run e sched init \<and> pc s = InFor \<and> u \<in> pending s
          \<and> future_to_url s u = Some (Done P C)
          \<and> int (card (product_urls s)) = n - int m \<and> m < card (P - product_urls s)"
    then have init: "start e sc name n = Inr init" and s: "s = run e sched init"
      and a: "pc s = InFor" "u \<in> pending s" "future_to_url s u = Some (Done P C)"
        "m < card (P - product_urls s)"
      and c: "int (card (product_urls s)) = n - int m"
      by blast+
    from init have fin: "fin_inv s"
      unfolding s by (intro run_fin_inv start_fin_inv)
    from init have "max_urls init = n"
      by (auto elim: start_InrE)
    then have n: "max_urls s = n"
      unfolding s by (simp add: run_max_urls)
    from c n have found: "int (card (product_urls s)) = max_urls s - int m" by simp
    from overflow_merge [OF fin a(1,2,3) found a(4)]
    show "(\<exists>ys. merge u ys s \<noteq> None)
          \<and> (\<forall>ys s'. merge u ys s = Some s' \<longrightarrow>
                 product_urls s \<subseteq> product_urls s'
               \<and> product_urls s' - product_urls s \<subseteq> P
               \<and> card (product_urls s' - product_urls s) = m
               \<and> int (card (product_urls s')) = n
               \<and> pc s' = Exiting
               \<and> urls_to_visit s' = urls_to_visit s)"
      unfolding n .
  qed
  from A B show ?thesis by (rule conjI)
qed

lemma start_demo: "start demo_env VapeScraper ''vaperanger'' n = Inr (demo_start n)"
  by (simp add: start_def VapeScraper_def TARGET_SITES_def demo_env_def demo_start_def)

theorem budget_respected_witness:
  "find_product_urls demo_env VapeScraper ''vaperanger'' 1
     (round_home [prod_a, prod_b] @ [Return [prod_a]]) = Result [prod_a]
   \<and> int (length [prod_a]) \<le> 1
   \<and> (\<exists>ys. merge home ys (run demo_env (Draw [home] # replicate 9 (Run home)) (demo_start 1))
              \<noteq> None)"
proof -
  let ?s = "run demo_env (Draw [home] # replicate 9 (Run home)) (demo_start 1)"
  have r: "find_product_urls demo_env VapeScraper ''vaperanger'' 1
     (round_home [prod_a, prod_b] @ [Return [prod_a]]) = Result [prod_a]"
    by code_simp
  have f1: "pc ?s = InFor" by code_simp
  have f2: "home \<in> pending ?s" by code_simp
  have f3: "future_to_url ?s home = Some (Done {prod_a, prod_b} {coll_c, coll_e})"
    by code_simp
  have f4: "int (card (product_urls ?s)) = 1 - int 1" by code_simp
  have f5: "1 < card ({prod_a, prod_b} - product_urls ?s)" by code_simp
  have z: "(0::int) \<le> 1" by simp
  note t = budget_respected [OF z, where e = demo_env and sc = VapeScraper
      and name = "''vaperanger''" and init = "demo_start 1" and s = ?s
      and sched = "Draw [home] # replicate 9 (Run home)" and u = home
      and P = "{prod_a, prod_b}" and C = "{coll_c, coll_e}" and m = 1]
  note t' = budget_respected [OF z, where e = demo_env and sc = VapeScraper
      and name = "''vaperanger''"
      and xs = "[prod_a]" and sched = "round_home [prod_a, prod_b] @ [Return [prod_a]]"]
  have c1: "int (length [prod_a]) \<le> 1"
    by (rule conjunct1 [OF t', THEN mp, OF r])
  have hyp: "start demo_env VapeScraper ''vaperanger'' 1 = Inr (demo_start 1) \<and> ?s = ?s
          \<and> pc ?s = InFor \<and> home \<in> pending ?s
          \<and> future_to_url ?s home = Some (Done {prod_a, prod_b} {coll_c, coll_e})
          \<and> int (card (product_urls ?s)) = 1 - int 1
          \<and> 1 < card ({prod_a, prod_b} - product_urls ?s)"
    by (intro conjI refl start_demo f1 f2 f3 f4 f5)
  have c2: "\<exists>ys. merge home ys ?s \<noteq> None"
    by (rule conjunct1 [OF conjunct2 [OF t, THEN mp, OF hyp]])
  show ?thesis
    by (intro conjI r c1 c2)
qed

section \<open>What is returned\<close>

lemma link_ok_cong:
  "base_domain sc' = base_domain sc \<Longrightarrow> target_sites sc' = target_sites sc \<Longrightarrow>
     link_ok e sc' name u = link_ok e sc name u"
  by (simp add: link_ok_def is_valid_url_def is_product_url_def cong: option.case_cong)

lemma classify_ProductLink:
  "classify_link e sc name u = Inr ProductLink \<Longrightarrow> link_ok e sc name u"
  by (auto simp: classify_link_def link_ok_def split: if_splits sum.splits bool.splits)

lemma process_page_step_products:
  assumes "process_page_step e name u (sc, reqs) w = ((sc', reqs'), w')"
    and "\<forall>x \<in> task_products w. link_ok e sc name x"
  shows "\<forall>x \<in> task_products w'. link_ok e sc name x"
proof (cases "finished w")
  case True
  with assms show ?thesis by (cases w) auto
next
  case False
  with assms(1) show ?thesis
    using assms(2)
    by (cases rule: process_page_step_cases)
       (auto split: option.splits verdict.splits dest: classify_ProductLink)
qed

lemma process_page_step_self:
  assumes "process_page_step e name u (sc, reqs) w = ((sc', reqs'), w')"
  shows "base_domain sc' = base_domain sc" "base_url sc' = base_url sc"
    "target_sites sc' = target_sites sc"
proof -
  have "base_domain sc' = base_domain sc \<and> base_url sc' = base_url sc
      \<and> target_sites sc' = target_sites sc"
  proof (cases "finished w")
    case True
    with assms show ?thesis by (cases w) auto
  next
    case False
    with assms show ?thesis
      by (cases rule: process_page_step_cases) simp_all
  qed
  then show "base_domain sc' = base_domain sc" "base_url sc' = base_url sc"
    "target_sites sc' = target_sites sc"
    by simp_all
qed

lemma py_slice_to_subset: "set (py_slice_to ys r) \<subseteq> set ys"
  by (simp add: py_slice_to_def set_take_subset)

lemma merge_products_subset:
  assumes "merge u ys s = Some s'"
  obtains w where "future_to_url s u = Some w" "product_urls s \<subseteq> product_urls s'"
    "product_urls s' \<subseteq> product_urls s \<union> task_products w"
  using assms
proof (cases rule: merge_SomeE)
  case failed
  from failed(4) have "product_urls s' = product_urls s" by simp
  with failed(3) show ?thesis by (intro that [of Failed]) simp_all
next
  case (fits P C)
  from fits(5) have "product_urls s' = product_urls s \<union> (P - product_urls s)" by simp
  with fits(3) show ?thesis by (intro that [of "Done P C"]) auto
next
  case (break P C)
  from break(7) have p: "product_urls s' = product_urls s \<union>
      set (py_slice_to ys (max_urls s - int (card (product_urls s))))" by simp
  from break(5) have "set ys \<subseteq> P" by (auto simp: enumerates_def)
  with py_slice_to_subset [of ys "max_urls s - int (card (product_urls s))"] p
  have "product_urls s \<subseteq> product_urls s'" "product_urls s' \<subseteq> product_urls s \<union> P"
    by auto
  with break(3) show ?thesis by (intro that [of "Done P C"]) simp_all
next
  case (short P C)
  from short(7) have p: "product_urls s' = product_urls s \<union>
      set (py_slice_to ys (max_urls s - int (card (product_urls s))))" by simp
  from short(5) have "set ys \<subseteq> P" by (auto simp: enumerates_def)
  with py_slice_to_subset [of ys "max_urls s - int (card (product_urls s))"] p
  have "product_urls s \<subseteq> product_urls s'" "product_urls s' \<subseteq> product_urls s \<union> P"
    by auto
  with short(3) show ?thesis by (intro that [of "Done P C"]) simp_all
qed

lemma products_inv_step:
  assumes "products_inv e s" and "step e ev s = Some s'"
  shows "products_inv e s'"
proof -
  note fr = step_frame [OF assms(2)]
  have ok: "link_ok e (self s') (site_name s') = link_ok e (self s) (site_name s)"
    unfolding fr(1) by (intro ext link_ok_cong fr)
  from assms(1) have P: "\<forall>u \<in> product_urls s. link_ok e (self s) (site_name s) u"
    and T: "\<And>v w. future_to_url s v = Some w \<Longrightarrow>
              \<forall>u \<in> task_products w. link_ok e (self s) (site_name s) u"
    by (auto simp: products_inv_def)
  have "(\<forall>u \<in> product_urls s'. link_ok e (self s) (site_name s) u)
      \<and> (\<forall>v w. future_to_url s' v = Some w \<longrightarrow>
             (\<forall>u \<in> task_products w. link_ok e (self s) (site_name s) u))"
  proof (cases ev)
    case (Draw xs)
    with assms(2) have "draw xs s = Some s'" by simp
    then have "product_urls s' = product_urls s"
      and "\<And>v w. future_to_url s' v = Some w \<Longrightarrow> task_products w = {}"
      by (auto elim!: draw_SomeE split: if_splits)
    with P show ?thesis by auto
  next
    case (Run u)
    with assms(2) have "run_task e u s = Some s'" by simp
    then show ?thesis
    proof (cases rule: run_task_SomeE)
      case (1 w sc reqs w')
      from 1(4) T [OF 1(1)] have new: "\<forall>x \<in> task_products w'. link_ok e (self s) (site_name s) x"
        by (rule process_page_step_products)
      from 1(5) have p: "product_urls s' = product_urls s"
        and f: "future_to_url s' = (future_to_url s)(u \<mapsto> w')"
        by simp_all
      show ?thesis
      proof (intro conjI allI impI)
        show "\<forall>u \<in> product_urls s'. link_ok e (self s) (site_name s) u"
          using P p by simp
      next
        fix v t
        assume "future_to_url s' v = Some t"
        then have "t = w' \<or> future_to_url s v = Some t"
          unfolding f by (cases "v = u") simp_all
        then show "\<forall>u \<in> task_products t. link_ok e (self s) (site_name s) u"
          using new T by blast
      qed
    qed
  next
    case (Merge u ys)
    with assms(2) have m: "merge u ys s = Some s'" by simp
    note mf = merge_frame [OF m]
    from m obtain w where w: "future_to_url s u = Some w"
      and sub: "product_urls s' \<subseteq> product_urls s \<union> task_products w"
      by (rule merge_products_subset)
    from P T [OF w] sub have "\<forall>u \<in> product_urls s'. link_ok e (self s) (site_name s) u"
      by blast
    with T mf(6) show ?thesis by simp
  next
    case (Return xs)
    with assms(2) have "return_list xs s = Some s'" by simp
    then have "product_urls s' = product_urls s" "future_to_url s' = future_to_url s"
      by (auto elim!: return_list_SomeE)
    with P T show ?thesis by simp
  qed
  then show ?thesis
    unfolding products_inv_def ok .
qed

lemma run_products_inv: "products_inv e s \<Longrightarrow> products_inv e (run e sched s)"
  by (rule run_induct [where I = "products_inv e"]) (auto intro: products_inv_step)

lemma run_frame:
  "site_name (run e sched s) = site_name s"
  "base_domain (self (run e sched s)) = base_domain (self s)"
  "base_url (self (run e sched s)) = base_url (self s)"
  "target_sites (self (run e sched s)) = target_sites (self s)"
proof -
  have "site_name (run e sched s) = site_name s
    \<and> base_domain (self (run e sched s)) = base_domain (self s)
    \<and> base_url (self (run e sched s)) = base_url (self s)
    \<and> target_sites (self (run e sched s)) = target_sites (self s)"
    by (rule run_induct [where I = "\<lambda>t. site_name t = site_name s
        \<and> base_domain (self t) = base_domain (self s)
        \<and> base_url (self t) = base_url (self s)
        \<and> target_sites (self t) = target_sites (self s)"]) (simp_all add: step_frame)
  then show "site_name (run e sched s) = site_name s"
    "base_domain (self (run e sched s)) = base_domain (self s)"
    "base_url (self (run e sched s)) = base_url (self s)"
    "target_sites (self (run e sched s)) = target_sites (self s)"
    by simp_all
qed

text \<open>
  C2. Every URL of the returned list contains the product pattern configured for the
  site as a substring, has the network location of the site's base URL, and occurs
  once in the list.
\<close>

theorem returned_urls_are_products:
  assumes "find_product_urls e sc name n sched = Result xs"
  shows "\<exists>info d. target_sites sc name = Some info
           \<and> urlparse_netloc e (site_base_url info) = Some d
           \<and> distinct xs
           \<and> (\<forall>u \<in> set xs. sublist (site_product_pattern info) u
                             \<and> urlparse_netloc e u = Some d)"
proof -
  from assms obtain init where init: "start e sc name n = Inr init"
    and r: "pc (run e sched init) = Returned xs"
    by (rule find_product_urls_ResultE)
  let ?s = "run e sched init"
  from init obtain info d where info: "target_sites sc name = Some info"
    and d: "urlparse_netloc e (site_base_url info) = Some d"
    and s0: "init = \<lparr>self = sc\<lparr>visited_urls := {}, base_domain := Some d,
                       base_url := Some (site_base_url info)\<rparr>,
           requests = [], site_name = name, max_urls = n, product_urls = {},
           urls_to_visit = {site_base_url info}, current_batch = {},
           future_to_url = Map.empty, pending = {}, pc = AtWhile, batches = 0\<rparr>"
    by (rule start_InrE)
  from s0 have "products_inv e init" by (simp add: products_inv_def)
  then have "products_inv e ?s" by (rule run_products_inv)
  then have ok: "\<forall>u \<in> product_urls ?s. link_ok e (self ?s) (site_name ?s) u"
    by (simp add: products_inv_def)
  have fr: "site_name ?s = name" "base_domain (self ?s) = Some d"
    "target_sites (self ?s) = target_sites sc"
    by (simp_all add: run_frame s0)
  from init have "returned_inv ?s"
    by (intro run_returned_inv start_returned_inv)
  with r have en: "enumerates xs (product_urls ?s)"
    by (simp add: returned_inv_def)
  have "\<forall>u \<in> set xs. sublist (site_product_pattern info) u \<and> urlparse_netloc e u = Some d"
  proof
    fix u assume "u \<in> set xs"
    with en ok have "link_ok e (self ?s) (site_name ?s) u"
      by (simp add: enumerates_def)
    then show "sublist (site_product_pattern info) u \<and> urlparse_netloc e u = Some d"
      using fr info
      by (auto simp: link_ok_def is_valid_url_def is_product_url_def contains_sublist
               split: option.splits if_splits)
  qed
  with info d en show ?thesis
    by (auto simp: enumerates_def)
qed


theorem returned_urls_are_products_witness:
  "find_product_urls demo_env VapeScraper ''vaperanger'' 2
     (round_home [] @ [Return [prod_a, prod_b]]) = Result [prod_a, prod_b]
   \<and> (\<exists>info d. target_sites VapeScraper ''vaperanger'' = Some info
           \<and> urlparse_netloc demo_env (site_base_url info) = Some d
           \<and> distinct [prod_a, prod_b]
           \<and> sublist (site_product_pattern info) prod_a
           \<and> urlparse_netloc demo_env prod_b = Some d)"
proof -
  have r: "find_product_urls demo_env VapeScraper ''vaperanger'' 2
     (round_home [] @ [Return [prod_a, prod_b]]) = Result [prod_a, prod_b]"
    by code_simp
  from returned_urls_are_products [OF r] obtain info d where
    "target_sites VapeScraper ''vaperanger'' = Some info"
    "urlparse_netloc demo_env (site_base_url info) = Some d"
    "distinct [prod_a, prod_b]"
    "\<forall>u \<in> set [prod_a, prod_b]. sublist (site_product_pattern info) u
         \<and> urlparse_netloc demo_env u = Some d"
    by blast
  then have "target_sites VapeScraper ''vaperanger'' = Some info
           \<and> urlparse_netloc demo_env (site_base_url info) = Some d
           \<and> distinct [prod_a, prod_b]
           \<and> sublist (site_product_pattern info) prod_a
           \<and> urlparse_netloc demo_env prod_b = Some d"
    by (simp del: distinct.simps)
  then have "\<exists>info d. target_sites VapeScraper ''vaperanger'' = Some info
           \<and> urlparse_netloc demo_env (site_base_url info) = Some d
           \<and> distinct [prod_a, prod_b]
           \<and> sublist (site_product_pattern info) prod_a
           \<and> urlparse_netloc demo_env prod_b = Some d"
    by blast
  with r show ?thesis by (rule conjI)
qed

section \<open>Requests\<close>









section \<open>After the budget is reached\<close>




section \<open>The start of an invocation\<close>

text \<open>
  C9. What an earlier invocation left in \<open>visited_urls\<close>, \<open>base_domain\<close> and
  \<open>base_url\<close> of the object has no effect: the invocation is the same, step by step,
  and it starts with an empty visited set and with the frontier holding the base URL
  only.
\<close>

theorem invocation_starts_fresh:
  "start e (sc\<lparr>visited_urls := V, base_domain := d, base_url := b\<rparr>) name n = start e sc name n
   \<and> find_product_urls e (sc\<lparr>visited_urls := V, base_domain := d, base_url := b\<rparr>) name n sched
       = find_product_urls e sc name n sched
   \<and> (start e sc name n = Inr init \<longrightarrow>
        visited_urls (self init) = {}
      \<and> (\<exists>info. target_sites sc name = Some info \<and> urls_to_visit init = {site_base_url info}))"
proof -
  have a: "start e (sc\<lparr>visited_urls := V, base_domain := d, base_url := b\<rparr>) name n
             = start e sc name n"
    by (simp add: start_def split: option.splits)
  have c: "start e sc name n = Inr init \<longrightarrow>
        visited_urls (self init) = {}
      \<and> (\<exists>info. target_sites sc name = Some info \<and> urls_to_visit init = {site_base_url info})"
    by (auto elim!: start_InrE)
  from a c show ?thesis
    by (simp add: find_product_urls_def)
qed

theorem invocation_starts_fresh_witness:
  "find_product_urls demo_env
     (VapeScraper\<lparr>visited_urls := {home, coll_c}, base_domain := Some ''other.test'',
                  base_url := Some ''https://other.test''\<rparr>)
     ''vaperanger'' 2 (round_home [] @ [Return [prod_a, prod_b]]) = Result [prod_a, prod_b]
   \<and> visited_urls (self (demo_start 2)) = {}"
proof -
  have r: "find_product_urls demo_env VapeScraper ''vaperanger'' 2
     (round_home [] @ [Return [prod_a, prod_b]]) = Result [prod_a, prod_b]"
    by code_simp
  note t = invocation_starts_fresh [where e = demo_env and sc = VapeScraper
      and V = "{home, coll_c}" and d = "Some ''other.test''" and b = "Some ''https://other.test''"
      and name = "''vaperanger''" and n = 2 and init = "demo_start 2"
      and sched = "round_home [] @ [Return [prod_a, prod_b]]"]
  have a: "find_product_urls demo_env
     (VapeScraper\<lparr>visited_urls := {home, coll_c}, base_domain := Some ''other.test'',
                  base_url := Some ''https://other.test''\<rparr>)
     ''vaperanger'' 2 (round_home [] @ [Return [prod_a, prod_b]]) = Result [prod_a, prod_b]"
    using conjunct1 [OF conjunct2 [OF t]] r by (rule trans)
  have b: "visited_urls (self (demo_start 2)) = {}"
    by (rule conjunct1 [OF conjunct2 [OF conjunct2 [OF t], THEN mp, OF start_demo]])
  show ?thesis
    by (intro conjI a b)
qed

section \<open>A site that is not registered\<close>

text \<open>
  C10. The invocation raises \<open>KeyError\<close> exactly when the site name is no key of the
  registry; it does so before any request.
\<close>

theorem unknown_site_raises:
  "(find_product_urls e sc name n sched = Raised KeyError) = (name \<notin> dom (target_sites sc))
   \<and> (name \<notin> dom (target_sites sc) \<longrightarrow> requests_made e sc name n sched = [])"
  by (auto simp: find_product_urls_def requests_made_def start_def
           split: option.splits pc.splits)

theorem unknown_site_raises_witness:
  "find_product_urls demo_env VapeScraper ''vapestore'' 5 (round_home []) = Raised KeyError
   \<and> requests_made demo_env VapeScraper ''vapestore'' 5 (round_home []) = []"
proof -
  have k: "''vapestore'' \<notin> dom (target_sites VapeScraper)"
    by (simp add: VapeScraper_def TARGET_SITES_def)
  note t = unknown_site_raises [where e = demo_env and sc = VapeScraper
      and name = "''vapestore''" and n = 5 and sched = "round_home []"]
  have a: "find_product_urls demo_env VapeScraper ''vapestore'' 5 (round_home []) = Raised KeyError"
    using conjunct1 [OF t] k by (rule iffD2)
  have b: "requests_made demo_env VapeScraper ''vapestore'' 5 (round_home []) = []"
    by (rule conjunct2 [OF t, THEN mp, OF k])
  show ?thesis
    by (intro conjI a b)
qed

section \<open>The frontier and the visited set\<close>

lemma run_append: "run e (xs @ ys) s = run e ys (run e xs s)"
  by (induction xs arbitrary: s) simp_all

lemma process_page_step_visited:
  assumes "process_page_step e name u (sc, reqs) w = ((sc', reqs'), w')"
  shows "visited_urls sc \<subseteq> visited_urls sc'" and "visited_urls sc' \<subseteq> insert u (visited_urls sc)"
proof -
  have "visited_urls sc \<subseteq> visited_urls sc' \<and> visited_urls sc' \<subseteq> insert u (visited_urls sc)"
  proof (cases "finished w")
    case True
    with assms show ?thesis by (cases w) auto
  next
    case False
    with assms show ?thesis
      by (cases rule: process_page_step_cases) auto
  qed
  then show "visited_urls sc \<subseteq> visited_urls sc'"
    and "visited_urls sc' \<subseteq> insert u (visited_urls sc)"
    by simp_all
qed

lemma merge_frontier:
  assumes "merge u ys s = Some s'"
  obtains "urls_to_visit s' = urls_to_visit s"
  | C where "urls_to_visit s' = urls_to_visit s \<union> (C - visited_urls (self s) - urls_to_visit s)"
  using assms
proof (cases rule: merge_SomeE)
  case failed
  then show ?thesis by (intro that(1)) simp
next
  case (fits P C)
  then show ?thesis
    by (cases "int (card (product_urls s \<union> (P - product_urls s))) < max_urls s")
       (auto simp: enqueue_frontier intro: that)
next
  case (break P C)
  then show ?thesis by (intro that(1)) simp
next
  case (short P C)
  then show ?thesis
    by (intro that(2) [of C]) (simp add: enqueue_frontier)
qed

text \<open>
  C4, as the code has it. On the small site with \<open>max_urls = 5\<close>: the second batch
  is \<open>{c, e}\<close>; the task of \<open>e\<close> finishes and is merged before the task of \<open>c\<close> has
  started, so \<open>c\<close>, found on the page of \<open>e\<close> and not visited yet, enters the frontier
  again; then the task of \<open>c\<close> adds \<open>c\<close> to the visited set.
\<close>

theorem frontier_meets_visited:
  "start demo_env VapeScraper ''vaperanger'' 5 = Inr (demo_start 5)
   \<and> urls_to_visit
        (run demo_env (round_home [] @ round_e_first @ [Run coll_c, Run coll_c]) (demo_start 5))
     \<inter> visited_urls (self
        (run demo_env (round_home [] @ round_e_first @ [Run coll_c, Run coll_c]) (demo_start 5)))
     = {coll_c}"
proof -
  have "urls_to_visit
        (run demo_env (round_home [] @ round_e_first @ [Run coll_c, Run coll_c]) (demo_start 5))
     \<inter> visited_urls (self
        (run demo_env (round_home [] @ round_e_first @ [Run coll_c, Run coll_c]) (demo_start 5)))
     = {coll_c}"
    by code_simp
  with start_demo show ?thesis by (rule conjI)
qed

text \<open>
  C4, amended. A URL enters the frontier only while it is outside the visited set,
  and a batch leaves the frontier when it is drawn; so no step of the main thread
  makes the two sets meet, and they can come to meet only by a task adding its own
  URL to the visited set. A crawl starts with the two sets disjoint.
\<close>

theorem frontier_fresh_when_added:
  assumes "step e ev s = Some s'"
  shows "(urls_to_visit s' - urls_to_visit s) \<inter> visited_urls (self s') = {}
       \<and> (\<forall>xs. ev = Draw xs \<longrightarrow> urls_to_visit s' \<inter> current_batch s' = {})
       \<and> urls_to_visit s' \<inter> visited_urls (self s')
           \<subseteq> urls_to_visit s \<inter> visited_urls (self s) \<union> (case ev of Run u \<Rightarrow> {u} | _ \<Rightarrow> {})
       \<and> (start e sc name n = Inr s \<longrightarrow> urls_to_visit s \<inter> visited_urls (self s) = {})"
proof -
  have init: "start e sc name n = Inr s \<longrightarrow> urls_to_visit s \<inter> visited_urls (self s) = {}"
    by (auto elim!: start_InrE)
  have "(urls_to_visit s' - urls_to_visit s) \<inter> visited_urls (self s') = {}
       \<and> (\<forall>xs. ev = Draw xs \<longrightarrow> urls_to_visit s' \<inter> current_batch s' = {})
       \<and> urls_to_visit s' \<inter> visited_urls (self s')
           \<subseteq> urls_to_visit s \<inter> visited_urls (self s) \<union> (case ev of Run u \<Rightarrow> {u} | _ \<Rightarrow> {})"
  proof (cases ev)
    case (Draw xs)
    with assms have "draw xs s = Some s'" by simp
    then have "self s' = self s"
      "urls_to_visit s' = urls_to_visit s - current_batch s'"
      by (auto elim!: draw_SomeE)
    with Draw show ?thesis by auto
  next
    case (Run u)
    with assms have "run_task e u s = Some s'" by simp
    then show ?thesis
    proof (cases rule: run_task_SomeE)
      case (1 w sc reqs w')
      from 1(4) have "visited_urls sc \<subseteq> insert u (visited_urls (self s))"
        by (rule process_page_step_visited)
      moreover from 1(5) have "self s' = sc" "urls_to_visit s' = urls_to_visit s"
        by simp_all
      ultimately show ?thesis
        using Run by auto
    qed
  next
    case (Merge u ys)
    with assms have m: "merge u ys s = Some s'" by simp
    note mf = merge_frame [OF m]
    from m show ?thesis
      using mf(1) Merge by (cases rule: merge_frontier) auto
  next
    case (Return xs)
    with assms have "return_list xs s = Some s'" by simp
    then have "self s' = self s" "urls_to_visit s' = urls_to_visit s"
      by (auto elim!: return_list_SomeE)
    with Return show ?thesis by auto
  qed
  with init show ?thesis by simp
qed

theorem frontier_fresh_when_added_witness:
  "step demo_env (Merge coll_e [])
     (run demo_env (round_home [] @ butlast round_e_first) (demo_start 5))
   = Some (run demo_env (round_home [] @ round_e_first) (demo_start 5))
   \<and> urls_to_visit (run demo_env (round_home [] @ round_e_first) (demo_start 5))
       - urls_to_visit (run demo_env (round_home [] @ butlast round_e_first) (demo_start 5))
     = {coll_c}
   \<and> {coll_c} \<inter> visited_urls (self (run demo_env (round_home [] @ round_e_first) (demo_start 5)))
     = {}"
proof -
  let ?s = "run demo_env (round_home [] @ butlast round_e_first) (demo_start 5)"
  let ?s' = "run demo_env (round_home [] @ round_e_first) (demo_start 5)"
  have st: "step demo_env (Merge coll_e []) ?s \<noteq> None"
    by code_simp
  have "round_home [] @ round_e_first
          = (round_home [] @ butlast round_e_first) @ [Merge coll_e []]"
    by (simp add: round_e_first_def)
  then have r: "?s' = (case step demo_env (Merge coll_e []) ?s of None \<Rightarrow> ?s | Some t \<Rightarrow> t)"
    by (simp only: run_append run.simps)
  from st r have a: "step demo_env (Merge coll_e []) ?s = Some ?s'"
    by (cases "step demo_env (Merge coll_e []) ?s") simp_all
  have d: "urls_to_visit ?s' - urls_to_visit ?s = {coll_c}"
    by code_simp
  from conjunct1 [OF frontier_fresh_when_added [OF a, where sc = VapeScraper
       and name = "''vaperanger''" and n = 5]]
  have b: "{coll_c} \<inter> visited_urls (self ?s') = {}"
    unfolding d .
  show ?thesis
    by (intro conjI a d b)
qed

section \<open>Progress\<close>

lemma enumeration_exists: "finite S \<Longrightarrow> \<exists>xs. enumerates xs S"
  using finite_distinct_list [of S] by (auto simp: enumerates_def)

lemma run_task_enabled:
  assumes "future_to_url s u = Some w" and "\<not> finished w"
    and "w = Queued \<longrightarrow> card (running s) < max_workers"
  shows "run_task e u s \<noteq> None"
  using assms by (auto simp: run_task_def split: prod.splits)

text \<open>A task that has not finished can make a step, or another one can.\<close>

lemma some_task_can_run:
  assumes "future_to_url s u = Some w" and "\<not> finished w"
  shows "\<exists>v. run_task e v s \<noteq> None"
proof (cases "w = Queued \<and> max_workers \<le> card (running s)")
  case False
  with assms have "run_task e u s \<noteq> None"
    by (intro run_task_enabled) auto
  then show ?thesis ..
next
  case True
  then have "card (running s) \<noteq> 0" by (simp add: max_workers_def)
  then have "running s \<noteq> {}" by auto
  then obtain v where "v \<in> running s" by auto
  then obtain t where t: "future_to_url s v = Some t" "started t" "\<not> finished t"
    by (auto simp: running_def split: option.splits)
  then have "t \<noteq> Queued" by auto
  with t have "run_task e v s \<noteq> None"
    by (intro run_task_enabled) auto
  then show ?thesis ..
qed

lemma merge_enabled:
  assumes "fin_inv s" and "pc s = InFor" and "u \<in> pending s"
    and "future_to_url s u = Some w" and "finished w"
  shows "\<exists>ys. merge u ys s \<noteq> None"
proof (cases w)
  case Failed
  with assms have "merge u [] s \<noteq> None" by (simp add: merge_def)
  then show ?thesis ..
next
  case (Done P C)
  with assms(1,4) have "finite (P - product_urls s)"
    by (auto dest: fin_inv_Done)
  then obtain ys where "enumerates ys (P - product_urls s)"
    using enumeration_exists by blast
  with assms Done have "merge u ys s \<noteq> None"
    by (simp add: merge_def Let_def)
  then show ?thesis ..
qed (use assms in simp_all)

lemma live_inv_enabled:
  assumes "live_inv s" and "\<forall>xs. pc s \<noteq> Returned xs"
  shows "\<exists>ev. step e ev s \<noteq> None"
proof -
  from assms(1) have fin: "fin_inv s" by (simp add: live_inv_def)
  then have finP: "finite (product_urls s)" and finF: "finite (urls_to_visit s)"
    by (simp_all add: fin_inv_def)
  from finP obtain ps where ps: "enumerates ps (product_urls s)"
    using enumeration_exists by blast
  have run: "\<exists>ev. step e ev s \<noteq> None" if "future_to_url s u = Some w" "\<not> finished w" for u w
  proof -
    from that obtain v where "run_task e v s \<noteq> None"
      using some_task_can_run by blast
    then have "step e (Run v) s \<noteq> None" by simp
    then show ?thesis ..
  qed
  show ?thesis
  proof (cases "pc s")
    case AtWhile
    with assms(1) have allfin: "\<And>u w. future_to_url s u = Some w \<Longrightarrow> finished w"
      unfolding live_inv_def by (metis pc.distinct(1,3))
    show ?thesis
    proof (cases "loop_cond s")
      case True
      from finF obtain xs where "enumerates xs (urls_to_visit s)"
        using enumeration_exists by blast
      with AtWhile True have "step e (Draw xs) s \<noteq> None"
        by (simp add: draw_def Let_def)
      then show ?thesis ..
    next
      case False
      with AtWhile ps allfin have "step e (Return ps) s \<noteq> None"
        by (auto simp: return_list_def split: option.splits)
      then show ?thesis ..
    qed
  next
    case InFor
    with assms(1) obtain u where u: "u \<in> pending s" and "future_to_url s u \<noteq> None"
      unfolding live_inv_def by blast
    then obtain w where w: "future_to_url s u = Some w" by auto
    show ?thesis
    proof (cases "finished w")
      case True
      with fin InFor u w obtain ys where "merge u ys s \<noteq> None"
        using merge_enabled by blast
      then have "step e (Merge u ys) s \<noteq> None" by simp
      then show ?thesis ..
    next
      case False
      with w show ?thesis by (rule run)
    qed
  next
    case Exiting
    show ?thesis
    proof (cases "\<forall>u \<in> current_batch s.
               case future_to_url s u of None \<Rightarrow> True | Some w \<Rightarrow> finished w")
      case True
      with Exiting ps have "step e (Return ps) s \<noteq> None"
        by (simp add: return_list_def)
      then show ?thesis ..
    next
      case False
      then obtain u w where "future_to_url s u = Some w" "\<not> finished w"
        by (auto split: option.splits)
      then show ?thesis by (rule run)
    qed
  next
    case (Returned xs)
    with assms(2) show ?thesis by simp
  qed
qed

lemma live_inv_step:
  assumes "live_inv s" and "step e ev s = Some s'"
  shows "live_inv s'"
proof -
  from assms(1) have fin: "fin_inv s"
    and dom: "\<And>u. future_to_url s u \<noteq> None \<Longrightarrow> u \<in> current_batch s"
    and infor: "pc s = InFor \<Longrightarrow> pending s \<noteq> {}"
      "\<And>u. pc s = InFor \<Longrightarrow> u \<in> pending s \<Longrightarrow> future_to_url s u \<noteq> None"
      "\<And>u w. pc s = InFor \<Longrightarrow> u \<notin> pending s \<Longrightarrow> future_to_url s u = Some w \<Longrightarrow> finished w"
    and idle: "\<And>u w. pc s \<noteq> InFor \<Longrightarrow> pc s \<noteq> Exiting \<Longrightarrow>
                 future_to_url s u = Some w \<Longrightarrow> finished w"
    unfolding live_inv_def by blast+
  from fin assms(2) have fin': "fin_inv s'" by (rule fin_inv_step)
  show ?thesis
  proof (cases ev)
    case (Draw xs)
    with assms(2) have d: "draw xs s = Some s'" by simp
    let ?cb = "set (take (min batch (card (urls_to_visit s))) xs)"
    from d have lc: "loop_cond s" and en: "enumerates xs (urls_to_visit s)"
      and s': "pc s' = InFor" "pending s' = ?cb" "current_batch s' = ?cb"
        "future_to_url s' = (\<lambda>u. if u \<in> ?cb then Some Queued else None)"
      by (auto elim!: draw_SomeE)
    from lc en have "xs \<noteq> []" by (auto simp: loop_cond_def enumerates_def)
    moreover from this have "card (urls_to_visit s) \<noteq> 0"
      unfolding enumerates_length [OF en, symmetric] by simp
    ultimately have "take (min batch (card (urls_to_visit s))) xs \<noteq> []"
      by (simp add: batch_def)
    then have "?cb \<noteq> {}" by simp
    with fin' s' show ?thesis
      unfolding live_inv_def by (auto split: if_splits)
  next
    case (Run u)
    with assms(2) have "run_task e u s = Some s'" by simp
    then show ?thesis
    proof (cases rule: run_task_SomeE)
      case (1 w sc reqs w')
      from 1(5) have s': "pc s' = pc s" "pending s' = pending s"
        "current_batch s' = current_batch s"
        "future_to_url s' = (future_to_url s)(u \<mapsto> w')"
        by simp_all
      have u: "u \<in> current_batch s" using dom [of u] 1(1) by simp
      have a: "\<And>v. future_to_url s' v \<noteq> None \<Longrightarrow> v \<in> current_batch s'"
        unfolding s' using dom u by (auto split: if_splits)
      have b: "pc s' = InFor \<Longrightarrow> pending s' \<noteq> {} \<and> (\<forall>v \<in> pending s'. future_to_url s' v \<noteq> None)"
        unfolding s' using infor(1,2) by auto
      have c: "finished t" if "pc s' = InFor" "v \<notin> pending s'" "future_to_url s' v = Some t" for v t
      proof (cases "v = u")
        case True
        with that infor(3) [of u w] 1(1,2) show ?thesis unfolding s' by auto
      next
        case False
        with that infor(3) [of v t] show ?thesis unfolding s' by auto
      qed
      have d: "finished t"
        if "pc s' \<noteq> InFor" "pc s' \<noteq> Exiting" "future_to_url s' v = Some t" for v t
      proof (cases "v = u")
        case True
        with that idle [of u w] 1(1,2) show ?thesis unfolding s' by auto
      next
        case False
        with that idle [of v t] show ?thesis unfolding s' by auto
      qed
      from fin' a b c d show ?thesis
        unfolding live_inv_def by blast
    qed
  next
    case (Merge u ys)
    with assms(2) have m: "merge u ys s = Some s'" by simp
    note mf = merge_frame [OF m]
    from m have w: "\<exists>w. future_to_url s u = Some w \<and> finished w"
      by (cases rule: merge_SomeE) simp_all
    have yielded: "finished t" if "v \<notin> pending s'" "future_to_url s' v = Some t" for v t
    proof (cases "v = u")
      case True
      with that w mf(6) show ?thesis by auto
    next
      case False
      with that mf(6,8,10) infor(3) [of v t] show ?thesis by auto
    qed
    have pcs: "pc s' = InFor \<Longrightarrow> pending s' \<noteq> {}"
      "pc s' = AtWhile \<Longrightarrow> pending s' = {}"
      using m mf(10)
      by (cases rule: merge_SomeE; simp add: pc_next_future pc_after_for split: if_splits)+
    have a: "\<And>v. future_to_url s' v \<noteq> None \<Longrightarrow> v \<in> current_batch s'"
      using dom mf(5,6) by simp
    have b: "pc s' = InFor \<Longrightarrow> pending s' \<noteq> {} \<and> (\<forall>v \<in> pending s'. future_to_url s' v \<noteq> None)"
      using pcs(1) infor(2) mf(6,8,10) by auto
    have d: "finished t"
      if "pc s' \<noteq> InFor" "pc s' \<noteq> Exiting" "future_to_url s' v = Some t" for v t
    proof -
      from that(1,2) merge_pc [OF m] have "pc s' = AtWhile" by auto
      with that(3) pcs(2) yielded show ?thesis by auto
    qed
    from fin' a b yielded d show ?thesis
      unfolding live_inv_def by blast
  next
    case (Return xs)
    with assms(2) have "return_list xs s = Some s'" by simp
    then have s': "pc s' = Returned xs" "current_batch s' = current_batch s"
      "future_to_url s' = future_to_url s"
      and fn: "\<forall>u \<in> current_batch s.
                 case future_to_url s u of None \<Rightarrow> True | Some w \<Rightarrow> finished w"
      by (auto elim!: return_list_SomeE)
    have "finished t" if "future_to_url s v = Some t" for v t
    proof -
      from that dom [of v] have "v \<in> current_batch s" by simp
      with fn that show ?thesis by force
    qed
    with fin' dom s' show ?thesis
      unfolding live_inv_def by simp
  qed
qed

lemma start_live_inv: "start e sc name n = Inr init \<Longrightarrow> live_inv init"
  by (erule start_InrE) (simp add: live_inv_def fin_inv_def)

lemma run_live_inv: "live_inv s \<Longrightarrow> live_inv (run e sched s)"
  by (rule run_induct [where I = live_inv]) (auto intro: live_inv_step)

section \<open>Failures\<close>




lemma crawl_outcome:
  assumes "start e sc name n = Inr init"
  shows "find_product_urls e sc name n sched \<noteq> Raised err"
    and "find_product_urls e sc name n sched = Result xs \<Longrightarrow>
           enumerates xs (product_urls (run e sched init))"
    and "find_product_urls e sc name n sched = Unfinished \<Longrightarrow>
           \<exists>ev. step e ev (run e sched init) \<noteq> None"
proof -
  show "find_product_urls e sc name n sched \<noteq> Raised err"
    using assms by (simp add: find_product_urls_def split: pc.splits)
  from assms have ret: "returned_inv (run e sched init)"
    by (intro run_returned_inv start_returned_inv)
  show "enumerates xs (product_urls (run e sched init))"
    if "find_product_urls e sc name n sched = Result xs"
  proof -
    from that assms have "pc (run e sched init) = Returned xs"
      by (simp add: find_product_urls_def split: pc.splits)
    with ret show ?thesis by (simp add: returned_inv_def)
  qed
  from assms have live: "live_inv (run e sched init)"
    by (intro run_live_inv start_live_inv)
  show "\<exists>ev. step e ev (run e sched init) \<noteq> None"
    if "find_product_urls e sc name n sched = Unfinished"
  proof -
    from that assms have "\<forall>xs. pc (run e sched init) \<noteq> Returned xs"
      by (auto simp: find_product_urls_def split: pc.splits)
    with live show ?thesis by (rule live_inv_enabled)
  qed
qed



section \<open>When the frontier is exhausted\<close>

lemma frontier_exhausted:
  assumes live: "live_inv s" and pc: "pc s = AtWhile" and empty: "urls_to_visit s = {}"
    and below: "int (card (product_urls s)) < max_urls s"
  shows "\<exists>xs. step e (Return xs) s \<noteq> None"
    and "step e ev s = Some s' \<Longrightarrow>
           \<exists>xs. ev = Return xs \<and> pc s' = Returned xs \<and> enumerates xs (product_urls s)
                \<and> int (length xs) < max_urls s"
proof -
  from live pc have allfin: "\<And>u w. future_to_url s u = Some w \<Longrightarrow> finished w"
    unfolding live_inv_def by (metis pc.distinct(1,3))
  from empty have nl: "\<not> loop_cond s" by (simp add: loop_cond_def)
  from live have "finite (product_urls s)" by (simp add: live_inv_def fin_inv_def)
  then obtain ps where ps: "enumerates ps (product_urls s)"
    using enumeration_exists by blast
  with pc nl allfin have "step e (Return ps) s \<noteq> None"
    by (auto simp: return_list_def split: option.splits)
  then show "\<exists>xs. step e (Return xs) s \<noteq> None" ..
  show "\<exists>xs. ev = Return xs \<and> pc s' = Returned xs \<and> enumerates xs (product_urls s)
                \<and> int (length xs) < max_urls s"
    if st: "step e ev s = Some s'"
  proof (cases ev)
    case (Draw xs)
    with st have "draw xs s = Some s'" by simp
    then have "loop_cond s" by (rule draw_SomeE)
    with nl show ?thesis by simp
  next
    case (Run u)
    with st have "run_task e u s = Some s'" by simp
    then obtain w where "future_to_url s u = Some w" "\<not> finished w"
      by (rule run_task_SomeE)
    with allfin show ?thesis by blast
  next
    case (Merge u ys)
    with st have "merge u ys s = Some s'" by simp
    from merge_frame(8) [OF this] pc show ?thesis by simp
  next
    case (Return xs)
    with st have "return_list xs s = Some s'" by simp
    then have en: "enumerates xs (product_urls s)" and "s' = s\<lparr>pc := Returned xs\<rparr>"
      by (auto elim!: return_list_SomeE)
    with Return below enumerates_length [OF en] show ?thesis by simp
  qed
qed

lemma enumerates_single: "enumerates xs {b} \<Longrightarrow> xs = [b]"
proof -
  assume en: "enumerates xs {b}"
  then have "length xs = 1" using enumerates_length [OF en] by simp
  then obtain x where "xs = [x]" by (cases xs) auto
  with en show ?thesis by (simp add: enumerates_def)
qed

lemma enumerates_empty: "enumerates xs {} \<Longrightarrow> xs = []"
  by (simp add: enumerates_def)

lemma merge_frontier_subset:
  assumes "merge u ys s = Some s'"
  obtains w where "future_to_url s u = Some w"
    "urls_to_visit s' \<subseteq> urls_to_visit s \<union> task_categories w"
  using assms
proof (cases rule: merge_SomeE)
  case failed
  then show ?thesis by (intro that [of Failed]) simp_all
next
  case (fits P C)
  then show ?thesis by (intro that [of "Done P C"]) (auto simp: enqueue_frontier)
next
  case (break P C)
  then show ?thesis by (intro that [of "Done P C"]) simp_all
next
  case (short P C)
  then show ?thesis by (intro that [of "Done P C"]) (auto simp: enqueue_frontier)
qed

lemma not_valid_dropped:
  "\<not> is_valid_url e sc u \<Longrightarrow> classify_link e sc name u = Inr Dropped"
  by (simp add: classify_link_def)

lemma valid_netloc:
  "is_valid_url e sc u \<Longrightarrow> base_domain sc = Some d \<Longrightarrow> urlparse_netloc e u = Some d"
  by (auto simp: is_valid_url_def split: option.splits if_splits)

text \<open>A step of the only task, on a page without in-domain links.\<close>

lemma seed_task_step:
  assumes step: "process_page_step e name b (sc, reqs) w = ((sc', reqs'), w')"
    and nf: "\<not> finished w"
    and bu: "base_url sc = Some b" and bd: "base_domain sc = Some d"
    and foreign: "\<forall>h \<in> set (page_hrefs e b). \<forall>f. urljoin e b h = Some f \<longrightarrow>
                    urlparse_netloc e f \<noteq> Some d"
    and empty: "task_products w = {}" "task_categories w = {}"
    and todo: "suffix (task_todo w) (page_hrefs e b)"
  shows "task_products w' = {} \<and> task_categories w' = {}
       \<and> suffix (task_todo w') (page_hrefs e b)
       \<and> task_rank (length (page_hrefs e b)) w' < task_rank (length (page_hrefs e b)) w"
  using step nf
proof (cases rule: process_page_step_cases)
  case skip
  then show ?thesis by simp
next
  case check
  then show ?thesis by simp
next
  case mark
  then show ?thesis by simp
next
  case fetch
  show ?thesis
  proof (cases w')
    case (Classifying hs P C)
    with fetch(4) have "page_hrefs e b = hs" "P = {}" "C = {}"
      by (auto simp: page_hrefs_def split: option.splits if_splits)
    with Classifying fetch(1) show ?thesis by simp
  next
    case (Done P C)
    with fetch(4) have "P = {}" "C = {}"
      by (auto split: option.splits if_splits)
    with Done fetch(1) show ?thesis by simp
  next
    case Failed
    with fetch(1) show ?thesis by simp
  qed (use fetch(4) in \<open>auto split: option.splits if_splits\<close>)
next
  case (return P C)
  with empty show ?thesis by simp
next
  case (raise h hs P C)
  then show ?thesis by simp
next
  case (link h hs P C b' full vd)
  from link(4) bu have b': "b' = b" by simp
  from todo link(1) have suf: "suffix (h # hs) (page_hrefs e b)" by simp
  then have "h \<in> set (page_hrefs e b)"
    by (auto simp: suffix_def)
  with foreign link(5) b' have "urlparse_netloc e full \<noteq> Some d" by blast
  with bd have "\<not> is_valid_url e sc full"
    using valid_netloc by blast
  then have "classify_link e sc name full = Inr Dropped"
    by (rule not_valid_dropped)
  with link(6) have "vd = Dropped" by simp
  with link(7) have w': "w' = Classifying hs P C" by simp
  from suf have "suffix hs (page_hrefs e b)"
    by (rule suffix_ConsD)
  with w' link(1) empty show ?thesis by simp
qed

lemma seed_rank_not_returned:
  "\<forall>xs. pc s \<noteq> Returned xs \<Longrightarrow>
     seed_rank L b s =
       1 + (if batches s = 0 then L + 6
            else (case future_to_url s b of None \<Rightarrow> 0 | Some w \<Rightarrow> task_rank L w)
                 + (if b \<in> pending s then 1 else 0))"
  by (cases "pc s") (simp_all add: seed_rank_def)

lemma seed_step:
  assumes K: "seed_inv e b d s" and live: "live_inv s"
    and foreign: "\<forall>h \<in> set (page_hrefs e b). \<forall>f. urljoin e b h = Some f \<longrightarrow>
                    urlparse_netloc e f \<noteq> Some d"
    and st: "step e ev s = Some s'"
  shows "seed_inv e b d s'
       \<and> seed_rank (length (page_hrefs e b)) b s' < seed_rank (length (page_hrefs e b)) b s"
proof -
  let ?L = "length (page_hrefs e b)"
  from K have P: "product_urls s = {}" and bu: "base_url (self s) = Some b"
    and bd: "base_domain (self s) = Some d"
    and T: "\<And>u w. future_to_url s u = Some w \<Longrightarrow>
              u = b \<and> task_products w = {} \<and> task_categories w = {}
            \<and> suffix (task_todo w) (page_hrefs e b)"
    and ph: "batches s = 0 \<and> urls_to_visit s = {b} \<and> future_to_url s = Map.empty
          \<or> batches s = 1 \<and> urls_to_visit s = {} \<and> pending s \<subseteq> {b}
            \<and> (pc s = InFor \<longrightarrow> b \<in> pending s)"
    unfolding seed_inv_def by blast+
  from live st have live': "live_inv s'" by (rule live_inv_step)
  note fr = step_frame [OF st]
  show ?thesis
  proof (cases ev)
    case (Draw xs)
    with st have d: "draw xs s = Some s'" by simp
    then have lc: "loop_cond s" and en: "enumerates xs (urls_to_visit s)" and pc: "pc s = AtWhile"
      by (auto elim!: draw_SomeE)
    from lc ph have b0: "batches s = 0" and F: "urls_to_visit s = {b}"
      by (auto simp: loop_cond_def)
    from en F have xs: "xs = [b]" by (simp add: enumerates_single)
    have cb: "set (take (min batch (card (urls_to_visit s))) xs) = {b}"
      unfolding F xs by (simp add: batch_def)
    from d have eq: "s' = s\<lparr>urls_to_visit := urls_to_visit s - {b},
            current_batch := {b},
            future_to_url := (\<lambda>u. if u \<in> {b} then Some Queued else None),
            pending := {b}, pc := InFor, batches := Suc (batches s)\<rparr>"
      by (rule draw_SomeE) (simp only: cb)
    have s': "product_urls s' = product_urls s" "self s' = self s"
      "urls_to_visit s' = urls_to_visit s - {b}" "pending s' = {b}" "pc s' = InFor"
      "batches s' = Suc (batches s)"
      "future_to_url s' = (\<lambda>u. if u \<in> {b} then Some Queued else None)"
      unfolding eq by simp_all
    have T': "v = b \<and> task_products t = {} \<and> task_categories t = {}
            \<and> suffix (task_todo t) (page_hrefs e b)"
      if "future_to_url s' v = Some t" for v t
      using that unfolding s' by (cases "v = b") simp_all
    have K': "seed_inv e b d s'"
      unfolding seed_inv_def using T' P bu bd b0 F
      by (simp add: s'(1,2,3,4,5,6)) blast
    have "seed_rank ?L b s = 1 + (?L + 6)"
      using pc b0 by (simp add: seed_rank_def)
    moreover have "seed_rank ?L b s' = 1 + (?L + 4 + 1)"
      using s' b0 by (simp add: seed_rank_def)
    ultimately show ?thesis using K' by simp
  next
    case (Run u)
    with st have "run_task e u s = Some s'" by simp
    then show ?thesis
    proof (cases rule: run_task_SomeE)
      case (1 w sc reqs w')
      from T [OF 1(1)] have u: "u = b" and em: "task_products w = {}" "task_categories w = {}"
        and todo: "suffix (task_todo w) (page_hrefs e b)"
        by simp_all
      have "future_to_url s \<noteq> Map.empty"
      proof
        assume "future_to_url s = Map.empty"
        then have "future_to_url s u = None" by simp
        with 1(1) show False by simp
      qed
      with ph have b1: "batches s = 1" "urls_to_visit s = {}" "pending s \<subseteq> {b}"
        "pc s = InFor \<longrightarrow> b \<in> pending s"
        by blast+
      have nr: "\<forall>xs. pc s \<noteq> Returned xs"
      proof (rule ccontr)
        assume "\<not> (\<forall>xs. pc s \<noteq> Returned xs)"
        then have "pc s \<noteq> InFor \<and> pc s \<noteq> Exiting" by auto
        with live 1(1) have "finished w" unfolding live_inv_def by blast
        with 1(2) show False by simp
      qed
      from 1(4) have stp: "process_page_step e (site_name s) b (self s, requests s) w
                            = ((sc, reqs), w')"
        unfolding u .
      from seed_task_step [OF stp 1(2) bu bd foreign em todo]
      have w': "task_products w' = {}" "task_categories w' = {}"
        "suffix (task_todo w') (page_hrefs e b)"
        "task_rank ?L w' < task_rank ?L w"
        by simp_all
      from 1(5) have s': "product_urls s' = product_urls s" "urls_to_visit s' = urls_to_visit s"
        "pending s' = pending s" "pc s' = pc s" "batches s' = batches s" "self s' = sc"
        "future_to_url s' = (future_to_url s)(u \<mapsto> w')"
        by simp_all
      from fr(3,4) bu bd have sc: "base_url (self s') = Some b" "base_domain (self s') = Some d"
        by simp_all
      have T': "v = b \<and> task_products t = {} \<and> task_categories t = {}
            \<and> suffix (task_todo t) (page_hrefs e b)"
        if "future_to_url s' v = Some t" for v t
      proof (cases "v = u")
        case True
        with that w' u show ?thesis unfolding s' by simp
      next
        case False
        with that T [of v t] show ?thesis unfolding s' by simp
      qed
      have K': "seed_inv e b d s'"
        unfolding seed_inv_def using T' sc b1 P
        by (simp add: s'(1,2,3,4,5)) blast
      from nr have nr': "\<forall>xs. pc s' \<noteq> Returned xs" by (simp add: s')
      have "seed_rank ?L b s' < seed_rank ?L b s"
        unfolding seed_rank_not_returned [OF nr] seed_rank_not_returned [OF nr']
        using b1(1) w'(4) 1(1) u by (simp add: s')
      with K' show ?thesis by simp
    qed
  next
    case (Merge u ys)
    with st have m: "merge u ys s = Some s'" by simp
    note mf = merge_frame [OF m]
    from m obtain w where w: "future_to_url s u = Some w"
      and sub: "product_urls s' \<subseteq> product_urls s \<union> task_products w"
      by (rule merge_products_subset)
    from m obtain w2 where w2: "future_to_url s u = Some w2"
      and fsub: "urls_to_visit s' \<subseteq> urls_to_visit s \<union> task_categories w2"
      by (rule merge_frontier_subset)
    from T [OF w] w w2 have u: "u = b" and em: "task_products w = {}" "task_categories w2 = {}"
      by simp_all
    have "future_to_url s \<noteq> Map.empty"
    proof
      assume "future_to_url s = Map.empty"
      then have "future_to_url s u = None" by simp
      with w show False by simp
    qed
    with ph have b1: "batches s = 1" "urls_to_visit s = {}" "pending s \<subseteq> {b}"
      by blast+
    from sub P em have P': "product_urls s' = {}" by simp
    from fsub b1 em have F': "urls_to_visit s' = {}" by simp
    from mf(10) b1(3) u have pend': "pending s' = {}" by auto
    from live' pend' have nf: "pc s' \<noteq> InFor"
      unfolding live_inv_def by blast
    have T': "v = b \<and> task_products t = {} \<and> task_categories t = {}
            \<and> suffix (task_todo t) (page_hrefs e b)"
      if "future_to_url s' v = Some t" for v t
      using that T [of v t] unfolding mf(6) by simp
    from bu bd mf(1) have sc: "base_url (self s') = Some b" "base_domain (self s') = Some d"
      by simp_all
    from b1(1) mf(7) have b1': "batches s' = 1" by simp
    have K': "seed_inv e b d s'"
      unfolding seed_inv_def using T' sc
      by (simp add: P' F' pend' nf b1') blast
    from merge_pc [OF m] have nr': "\<forall>xs. pc s' \<noteq> Returned xs" by auto
    from mf(8) have nr: "\<forall>xs. pc s \<noteq> Returned xs" by simp
    have "seed_rank ?L b s' < seed_rank ?L b s"
      unfolding seed_rank_not_returned [OF nr] seed_rank_not_returned [OF nr']
      using b1(1) mf(6,7,9) pend' u by simp
    with K' show ?thesis by simp
  next
    case (Return xs)
    with st have "return_list xs s = Some s'" by simp
    then have pc: "pc s = Exiting \<or> pc s = AtWhile" and s': "s' = s\<lparr>pc := Returned xs\<rparr>"
      by (auto elim!: return_list_SomeE)
    from K have K': "seed_inv e b d s'"
      unfolding seed_inv_def s' by auto
    from pc have "0 < seed_rank ?L b s"
      by (auto simp: seed_rank_def)
    moreover have "seed_rank ?L b s' = 0"
      unfolding s' by (simp add: seed_rank_def)
    ultimately show ?thesis using K' by simp
  qed
qed

lemma seed_run:
  assumes "seed_inv e b d s" and "live_inv s"
    and "\<forall>h \<in> set (page_hrefs e b). \<forall>f. urljoin e b h = Some f \<longrightarrow>
            urlparse_netloc e f \<noteq> Some d"
  shows "seed_inv e b d (run e sched s)
       \<and> effective e sched s + seed_rank (length (page_hrefs e b)) b (run e sched s)
           \<le> seed_rank (length (page_hrefs e b)) b s"
  using assms(1,2)
proof (induction sched arbitrary: s)
  case Nil
  then show ?case by simp
next
  case (Cons ev sched)
  show ?case
  proof (cases "step e ev s")
    case None
    with Cons show ?thesis by simp
  next
    case (Some s')
    from seed_step [OF Cons.prems assms(3) Some]
    have K': "seed_inv e b d s'"
      and lt: "seed_rank (length (page_hrefs e b)) b s' < seed_rank (length (page_hrefs e b)) b s"
      by simp_all
    from Cons.prems(2) Some have "live_inv s'" by (rule live_inv_step)
    from Cons.IH [OF K' this] lt Some show ?thesis by simp
  qed
qed

lemma seed_crawl:
  assumes init: "start e sc name n = Inr init"
    and bu: "base_url (self init) = Some b" and bd: "base_domain (self init) = Some d"
    and foreign: "\<forall>h \<in> set (page_hrefs e b). \<forall>f. urljoin e b h = Some f \<longrightarrow>
                    urlparse_netloc e f \<noteq> Some d"
  shows "find_product_urls e sc name n sched = Unfinished
           \<or> find_product_urls e sc name n sched = Result []"
    and "effective e sched init \<le> length (page_hrefs e b) + 7"
proof -
  from init bu bd have K: "seed_inv e b d init"
    by (auto elim!: start_InrE simp: seed_inv_def)
  from init have live: "live_inv init" by (rule start_live_inv)
  from init have "pc init = AtWhile" "batches init = 0"
    by (auto elim!: start_InrE)
  then have r0: "seed_rank (length (page_hrefs e b)) b init = length (page_hrefs e b) + 7"
    by (simp add: seed_rank_def)
  from seed_run [OF K live foreign, of sched]
  have K': "seed_inv e b d (run e sched init)"
    and le: "effective e sched init
               + seed_rank (length (page_hrefs e b)) b (run e sched init)
             \<le> seed_rank (length (page_hrefs e b)) b init"
    by simp_all
  from le r0 show "effective e sched init \<le> length (page_hrefs e b) + 7"
    by simp
  from K' have P: "product_urls (run e sched init) = {}"
    by (simp add: seed_inv_def)
  show "find_product_urls e sc name n sched = Unfinished
           \<or> find_product_urls e sc name n sched = Result []"
  proof (cases "find_product_urls e sc name n sched")
    case (Raised err)
    with crawl_outcome(1) [OF init] show ?thesis by blast
  next
    case (Result xs)
    from crawl_outcome(2) [OF init Result] P have "xs = []"
      by (simp add: enumerates_empty)
    with Result show ?thesis by simp
  next
    case Unfinished
    then show ?thesis by simp
  qed
qed

text \<open>
  C7. In a crawl, at the head of the \<open>while\<close> with an empty frontier and fewer than
  \<open>max_urls\<close> product URLs, the return can be made, and nothing else can: whatever
  step is made is the return of a listing of the product URL set, of length below
  \<open>max_urls\<close>. And when no anchor of the page of the base URL resolves to a URL in
  the domain, the invocation can only return the empty list, it makes at most
  \<open>7\<close> steps more than the page has anchors whatever the schedule, and as long as it
  has not returned it can make a step.
\<close>

theorem exhausted_frontier_returns:
  assumes "start e sc name n = Inr init"
  shows "(s = run e sched init \<and> pc s = AtWhile \<and> urls_to_visit s = {}
          \<and> int (card (product_urls s)) < n \<longrightarrow>
            (\<exists>xs. step e (Return xs) s \<noteq> None)
          \<and> (\<forall>ev s'. step e ev s = Some s' \<longrightarrow>
                 (\<exists>xs. ev = Return xs \<and> pc s' = Returned xs
                      \<and> enumerates xs (product_urls s) \<and> int (length xs) < n)))
       \<and> (base_url (self init) = Some b \<and> base_domain (self init) = Some d
          \<and> (\<forall>h \<in> set (page_hrefs e b). \<forall>f. urljoin e b h = Some f \<longrightarrow>
                 urlparse_netloc e f \<noteq> Some d) \<longrightarrow>
            (find_product_urls e sc name n sched = Unfinished
               \<or> find_product_urls e sc name n sched = Result [])
          \<and> effective e sched init \<le> length (page_hrefs e b) + 7
          \<and> (find_product_urls e sc name n sched = Unfinished \<longrightarrow>
                (\<exists>ev. step e ev (run e sched init) \<noteq> None)))"
proof -
  have A: "s = run e sched init \<and> pc s = AtWhile \<and> urls_to_visit s = {}
          \<and> int (card (product_urls s)) < n \<longrightarrow>
            (\<exists>xs. step e (Return xs) s \<noteq> None)
          \<and> (\<forall>ev s'. step e ev s = Some s' \<longrightarrow>
                 (\<exists>xs. ev = Return xs \<and> pc s' = Returned xs
                      \<and> enumerates xs (product_urls s) \<and> int (length xs) < n))"
  proof (rule impI)
    assume h: "s = run e sched init \<and> pc s = AtWhile \<and> urls_to_visit s = {}
          \<and> int (card (product_urls s)) < n"
    then have s: "s = run e sched init" and pc: "pc s = AtWhile"
      and F: "urls_to_visit s = {}" and c: "int (card (product_urls s)) < n"
      by blast+
    from assms have live: "live_inv s"
      unfolding s by (intro run_live_inv start_live_inv)
    from assms have "max_urls init = n" by (auto elim: start_InrE)
    then have n: "max_urls s = n" unfolding s by (simp add: run_max_urls)
    from c n have below: "int (card (product_urls s)) < max_urls s" by simp
    from frontier_exhausted [OF live pc F below]
    show "(\<exists>xs. step e (Return xs) s \<noteq> None)
          \<and> (\<forall>ev s'. step e ev s = Some s' \<longrightarrow>
                 (\<exists>xs. ev = Return xs \<and> pc s' = Returned xs
                      \<and> enumerates xs (product_urls s) \<and> int (length xs) < n))"
      unfolding n by blast
  qed
  have B: "base_url (self init) = Some b \<and> base_domain (self init) = Some d
          \<and> (\<forall>h \<in> set (page_hrefs e b). \<forall>f. urljoin e b h = Some f \<longrightarrow>
                 urlparse_netloc e f \<noteq> Some d) \<longrightarrow>
            (find_product_urls e sc name n sched = Unfinished
               \<or> find_product_urls e sc name n sched = Result [])
          \<and> effective e sched init \<le> length (page_hrefs e b) + 7
          \<and> (find_product_urls e sc name n sched = Unfinished \<longrightarrow>
                (\<exists>ev. step e ev (run e sched init) \<noteq> None))"
    using seed_crawl [OF assms, of b d sched] crawl_outcome(3) [OF assms, of sched]
    by blast
  from A B show ?thesis by (rule conjI)
qed

lemma bare_start: "start bare_env VapeScraper ''vaperanger'' n = Inr (demo_start n)"
  by (simp add: start_def VapeScraper_def TARGET_SITES_def bare_env_def demo_env_def
        demo_start_def)

theorem exhausted_frontier_returns_witness:
  "(\<exists>xs. step demo_env (Return xs)
          (run demo_env (until_x_marked @ [Run coll_x, Merge coll_x []]) (demo_start 9)) \<noteq> None)
   \<and> find_product_urls bare_env VapeScraper ''vaperanger'' 3 bare_crawl = Result []
   \<and> effective bare_env bare_crawl (demo_start 3) = 8
   \<and> effective bare_env bare_crawl (demo_start 3) \<le> length (page_hrefs bare_env home) + 7"
proof -
  let ?s = "run demo_env (until_x_marked @ [Run coll_x, Merge coll_x []]) (demo_start 9)"
  have a1: "pc ?s = AtWhile" by code_simp
  have a2: "urls_to_visit ?s = {}" by code_simp
  have a3: "int (card (product_urls ?s)) < 9" by code_simp
  note t = exhausted_frontier_returns [OF start_demo, where s = ?s
      and sched = "until_x_marked @ [Run coll_x, Merge coll_x []]"]
  from conjunct1 [OF t, THEN mp, OF conjI [OF refl conjI [OF a1 conjI [OF a2 a3]]]]
  have a4: "\<exists>xs. step demo_env (Return xs) ?s \<noteq> None"
    by (rule conjunct1)
  have b1: "base_url (self (demo_start 3)) = Some home"
    by (simp add: demo_start_def home_def)
  have b2: "base_domain (self (demo_start 3)) = Some ''vaperanger.com''"
    by (simp add: demo_start_def)
  have hrefs: "page_hrefs bare_env home = [''https://other.test/products/z'']"
    by code_simp
  have b3: "\<forall>h \<in> set (page_hrefs bare_env home). \<forall>f. urljoin bare_env home h = Some f \<longrightarrow>
              urlparse_netloc bare_env f \<noteq> Some ''vaperanger.com''"
    unfolding hrefs by (simp add: bare_env_def demo_env_def)
  note t' = exhausted_frontier_returns [OF bare_start, where b = home
      and d = "''vaperanger.com''" and sched = bare_crawl]
  from conjunct2 [OF t', THEN mp, OF conjI [OF b1 conjI [OF b2 b3]]]
  have c: "effective bare_env bare_crawl (demo_start 3) \<le> length (page_hrefs bare_env home) + 7"
    by blast
  have r: "find_product_urls bare_env VapeScraper ''vaperanger'' 3 bare_crawl = Result []"
    by code_simp
  have f: "effective bare_env bare_crawl (demo_start 3) = 8"
    by code_simp
  show ?thesis
    by (intro conjI a4 r f c)
qed

end
